theory Spec2Isabelle
  imports Complex_Main "HOL-Library.Word"
begin

section \<open>Arrays, indices and exceptions\<close>

text \<open>
  The source is \<^verbatim>\<open>skimage/morphology/_max_tree.pyx\<close>. Its arrays are flat, C-contiguous
  typed memoryviews, modelled as lists. The file sets no compiler directive, so the
  defaults of the language apply to every subscript: a negative index counts from the end
  (\<^verbatim>\<open>wraparound\<close>) and an index that is still out of range raises
  \<^verbatim>\<open>IndexError\<close> (\<^verbatim>\<open>boundscheck\<close>). An exception raised inside a function
  is the value \<open>Inl e\<close> of that function here.

  Pixel values are of any type with a linear order and a zero (the ten integer and floating
  point types of the fused type \<^verbatim>\<open>dtype_t\<close>; a floating point NaN, which is not
  ordered, is outside the model). Tree indices (64-bit signed) are \<open>int\<close>: the source
  does no arithmetic on them but \<^verbatim>\<open>p + structure[i]\<close>, far below the 64-bit bound.
  Attribute values (64-bit floats) are \<open>real\<close>: the filters only compare them, and the
  area computation adds whole numbers, which a 64-bit float does exactly below \<open>2^53\<close>.

  The source's \<^verbatim>\<open>image\<close>, \<^verbatim>\<open>mask\<close> and \<^verbatim>\<open>root\<close> are \<open>img\<close>, \<open>msk\<close> and
  \<open>rt\<close> here, and its functions lose their leading underscore: the names are taken, or no
  names, in HOL.
\<close>

datatype error = IndexError | ValueError | NameError

definition ebind :: "error + 'a \<Rightarrow> ('a \<Rightarrow> error + 'b) \<Rightarrow> error + 'b" where
  "ebind m f = (case m of Inl e \<Rightarrow> Inl e | Inr x \<Rightarrow> f x)"

definition getitem :: "'a list \<Rightarrow> int \<Rightarrow> error + 'a" where
  "getitem xs i =
     (let n = int (length xs); j = (if i < 0 then i + n else i)
      in if 0 \<le> j \<and> j < n then Inr (xs ! nat j) else Inl IndexError)"

definition setitem :: "'a list \<Rightarrow> int \<Rightarrow> 'a \<Rightarrow> error + 'a list" where
  "setitem xs i v =
     (let n = int (length xs); j = (if i < 0 then i + n else i)
      in if 0 \<le> j \<and> j < n then Inr (xs[nat j := v]) else Inl IndexError)"

text \<open>A \<^verbatim>\<open>for\<close> loop over a list whose body may raise: the first exception ends it.\<close>

fun efold :: "('s \<Rightarrow> 'x \<Rightarrow> error + 's) \<Rightarrow> 'x list \<Rightarrow> 's \<Rightarrow> error + 's" where
  "efold f [] s = Inr s"
| "efold f (x # xs) s = (case f s x of Inl e \<Rightarrow> Inl e | Inr s' \<Rightarrow> efold f xs s')"

section \<open>Area attribute\<close>

text \<open>
  \<^verbatim>\<open>_compute_area\<close>: \<^verbatim>\<open>area = np.ones(len(image))\<close>, then, over
  \<^verbatim>\<open>sorted_indices[::-1]\<close>, \<^verbatim>\<open>area[parent[p]] += area[p]\<close> for every \<open>p\<close>
  but the root \<^verbatim>\<open>sorted_indices[0]\<close>.
\<close>

definition area_step :: "int list \<Rightarrow> int \<Rightarrow> real list \<Rightarrow> int \<Rightarrow> error + real list" where
  "area_step parent p_root area p =
     (if p = p_root then Inr area
      else ebind (getitem parent p) (\<lambda>q.
           ebind (getitem area q) (\<lambda>aq.
           ebind (getitem area p) (\<lambda>ap.
           setitem area q (aq + ap)))))"

definition compute_area :: "'a list \<Rightarrow> int list \<Rightarrow> int list \<Rightarrow> error + real list" where
  "compute_area img parent sorted_indices =
     ebind (getitem sorted_indices 0) (\<lambda>p_root.
       efold (area_step parent p_root) (rev sorted_indices) (replicate (length img) 1))"

section \<open>Filters\<close>

text \<open>
  Both filters first write the root, \<^verbatim>\<open>output[p_root] = 0\<close> when
  \<^verbatim>\<open>attribute[p_root] < attribute_threshold\<close> and \<^verbatim>\<open>image[p_root]\<close> otherwise,
  and then run over \<^verbatim>\<open>sorted_indices\<close>, skipping the root.
\<close>

definition write_root ::
  "('a::{linorder,zero}) list \<Rightarrow> 'a list \<Rightarrow> real list \<Rightarrow> real \<Rightarrow> int \<Rightarrow> error + 'a list" where
  "write_root img output attribute attribute_threshold p_root =
     ebind (getitem attribute p_root) (\<lambda>a.
       if a < attribute_threshold then setitem output p_root 0
       else ebind (getitem img p_root) (\<lambda>v. setitem output p_root v))"

definition direct_step ::
  "('a::{linorder,zero}) list \<Rightarrow> int list \<Rightarrow> real list \<Rightarrow> real \<Rightarrow> int \<Rightarrow> 'a list \<Rightarrow> int
     \<Rightarrow> error + 'a list" where
  "direct_step img parent attribute attribute_threshold p_root output p =
     (if p = p_root then Inr output
      else ebind (getitem parent p) (\<lambda>q.
           ebind (getitem img p) (\<lambda>ip.
           ebind (getitem img q) (\<lambda>iq.
             if ip = iq then ebind (getitem output q) (\<lambda>oq. setitem output p oq)
             else ebind (getitem attribute p) (\<lambda>a.
               if a < attribute_threshold
               then ebind (getitem output q) (\<lambda>oq. setitem output p oq)
               else setitem output p ip)))))"

definition direct_filter ::
  "('a::{linorder,zero}) list \<Rightarrow> 'a list \<Rightarrow> int list \<Rightarrow> int list \<Rightarrow> real list \<Rightarrow> real
     \<Rightarrow> error + 'a list" where
  "direct_filter img output parent sorted_indices attribute attribute_threshold =
     ebind (getitem sorted_indices 0) (\<lambda>p_root.
     ebind (write_root img output attribute attribute_threshold p_root) (\<lambda>output1.
       efold (direct_step img parent attribute attribute_threshold p_root)
         sorted_indices output1))"

definition cut_first_step ::
  "('a::{linorder,zero}) list \<Rightarrow> int list \<Rightarrow> real list \<Rightarrow> real \<Rightarrow> int \<Rightarrow> 'a list \<Rightarrow> int
     \<Rightarrow> error + 'a list" where
  "cut_first_step img parent attribute attribute_threshold p_root output p =
     (if p = p_root then Inr output
      else ebind (getitem parent p) (\<lambda>q.
           ebind (getitem img p) (\<lambda>ip.
           ebind (getitem img q) (\<lambda>iq.
             if ip = iq then ebind (getitem output q) (\<lambda>oq. setitem output p oq)
             else ebind (getitem attribute p) (\<lambda>a.
               if a < attribute_threshold
               then ebind (getitem output q) (\<lambda>oq. setitem output p oq)
               else ebind (getitem output q) (\<lambda>oq.
                 if oq < iq then setitem output p oq else setitem output p ip))))))"

definition cut_first_filter ::
  "('a::{linorder,zero}) list \<Rightarrow> 'a list \<Rightarrow> int list \<Rightarrow> int list \<Rightarrow> real list \<Rightarrow> real
     \<Rightarrow> error + 'a list" where
  "cut_first_filter img output parent sorted_indices attribute attribute_threshold =
     ebind (getitem sorted_indices 0) (\<lambda>p_root.
     ebind (write_root img output attribute attribute_threshold p_root) (\<lambda>output1.
       efold (cut_first_step img parent attribute attribute_threshold p_root)
         sorted_indices output1))"

section \<open>Trees over a pixel order\<close>

text \<open>
  The filters and the area computation document what they need of their arguments:
  \<^verbatim>\<open>sorted_indices\<close> lists pixel indices, and ``a parent of a pixel always comes
  before the element itself''. \<open>tree_order P parent sorted_indices\<close> says so for arrays of
  \<open>P\<close> pixels: the listed indices are distinct and in range, and the parent of every
  listed pixel but the first (the root) is listed before it.
\<close>

fun parents_first :: "int list \<Rightarrow> int list \<Rightarrow> int list \<Rightarrow> bool" where
  "parents_first parent seen [] = True"
| "parents_first parent seen (p # ps) =
     (parent ! nat p \<in> set seen \<and> parents_first parent (seen @ [p]) ps)"

definition tree_order :: "nat \<Rightarrow> int list \<Rightarrow> int list \<Rightarrow> bool" where
  "tree_order P parent sorted_indices =
     (length parent = P \<and> distinct sorted_indices \<and>
      (\<forall>p \<in> set sorted_indices. 0 \<le> p \<and> p < int P) \<and>
      (case sorted_indices of [] \<Rightarrow> False | r # ps \<Rightarrow> parents_first parent [r] ps))"

text \<open>\<open>ancestor parent root a d\<close>: \<open>a\<close> is met on the way from \<open>d\<close> up to the root,
  \<open>d\<close> itself not counted.\<close>

inductive ancestor :: "int list \<Rightarrow> int \<Rightarrow> int \<Rightarrow> int \<Rightarrow> bool" for parent root where
  parent: "d \<noteq> root \<Longrightarrow> ancestor parent root (parent ! nat d) d"
| above: "d \<noteq> root \<Longrightarrow> ancestor parent root a (parent ! nat d) \<Longrightarrow> ancestor parent root a d"

code_pred ancestor .

text \<open>The pixels of the subtree rooted at \<open>x\<close>.\<close>

definition subtree :: "int list \<Rightarrow> int list \<Rightarrow> int \<Rightarrow> int set" where
  "subtree parent sorted_indices x =
     {d \<in> set sorted_indices. d = x \<or> ancestor parent (hd sorted_indices) x d}"

text \<open>The position of a pixel in the order.\<close>

definition pos :: "int list \<Rightarrow> int \<Rightarrow> nat" where
  "pos sorted_indices p = length (takeWhile (\<lambda>x. x \<noteq> p) sorted_indices)"

section \<open>Neighbourhood: offsets to points\<close>

text \<open>
  \<^verbatim>\<open>np.unravel_index(i, shape)\<close> in C order: the coordinates of the flat index \<open>i\<close>,
  last dimension fastest; it raises \<^verbatim>\<open>ValueError\<close> unless \<open>0 \<le> i < P\<close>, \<open>P\<close> the
  product of the extents. Extents are natural numbers.
\<close>

fun unravel_rev :: "nat \<Rightarrow> nat list \<Rightarrow> nat list" where
  "unravel_rev i [] = []"
| "unravel_rev i (n # ns) = (i mod n) # unravel_rev (i div n) ns"

definition unravel :: "nat \<Rightarrow> nat list \<Rightarrow> int list" where
  "unravel i shape = map int (rev (unravel_rev i (rev shape)))"

definition unravel_index :: "int \<Rightarrow> nat list \<Rightarrow> error + int list" where
  "unravel_index i shape =
     (if i < 0 \<or> int (prod_list shape) \<le> i then Inl ValueError
      else Inr (unravel (nat i) shape))"

text \<open>
  Offsets are 32-bit signed integers (\<^verbatim>\<open>DTYPE_INT32_t\<close>): \<open>32 word\<close>, read by
  \<open>sint\<close>, so that \<^verbatim>\<open>- np.min(offsets)\<close> and \<^verbatim>\<open>offset + neg_shift\<close> wrap around
  as the machine does.
\<close>

definition signed_min :: "32 word \<Rightarrow> 32 word list \<Rightarrow> 32 word" where
  "signed_min x xs = fold (\<lambda>a m. if sint a < sint m then a else m) xs x"

fun emap :: "('x \<Rightarrow> error + 'y) \<Rightarrow> 'x list \<Rightarrow> error + 'y list" where
  "emap f [] = Inr []"
| "emap f (x # xs) = ebind (f x) (\<lambda>y. ebind (emap f xs) (\<lambda>ys. Inr (y # ys)))"

text \<open>
  \<^verbatim>\<open>offsets_to_points\<close>: \<^verbatim>\<open>np.min\<close> of an empty array raises
  \<^verbatim>\<open>ValueError\<close>; the centre is \<^verbatim>\<open>np.unravel_index(neg_shift, shape)\<close>; row \<open>i\<close>
  is \<^verbatim>\<open>np.unravel_index(offset + neg_shift, shape)\<close> minus the centre.
\<close>

definition offsets_to_points :: "32 word list \<Rightarrow> nat list \<Rightarrow> error + int list list" where
  "offsets_to_points offsets shape =
     (case offsets of
        [] \<Rightarrow> Inl ValueError
      | x # xs \<Rightarrow>
          (let neg_shift = - signed_min x xs in
           ebind (unravel_index (sint neg_shift) shape) (\<lambda>center_point.
             emap (\<lambda>offset.
                 ebind (unravel_index (sint (offset + neg_shift)) shape) (\<lambda>current_point.
                   Inr (map2 (\<lambda>c d. c - d) current_point center_point)))
               offsets)))"

text \<open>
  \<^verbatim>\<open>_is_valid_coordinate\<close>: the pixel \<open>index\<close> moved by \<open>coordinates\<close> stays inside
  \<open>shape\<close> in every dimension.
\<close>

fun valid_dims :: "int list \<Rightarrow> int list \<Rightarrow> nat list \<Rightarrow> nat list \<Rightarrow> error + bool" where
  "valid_dims p_coord coordinates shape [] = Inr True"
| "valid_dims p_coord coordinates shape (i # is) =
     ebind (getitem coordinates (int i)) (\<lambda>d.
       let res_coord = p_coord ! i + d
       in if res_coord < 0 then Inr False
          else if int (shape ! i) \<le> res_coord then Inr False
          else valid_dims p_coord coordinates shape is)"

definition is_valid_coordinate :: "int \<Rightarrow> int list \<Rightarrow> nat list \<Rightarrow> error + bool" where
  "is_valid_coordinate index coordinates shape =
     ebind (unravel_index index shape) (\<lambda>p_coord.
       valid_dims p_coord coordinates shape [0..<length shape])"

section \<open>Building the tree\<close>

text \<open>
  \<^verbatim>\<open>find_root\<close> recurses along \<open>parent\<close> and compresses the path on the way back. It
  need not return (a cycle in \<open>parent\<close>): not returning is the value \<open>None\<close>.
\<close>

partial_function (option) find_root :: "int list \<Rightarrow> int \<Rightarrow> (error + int list \<times> int) option" where
  "find_root parent index =
     (case getitem parent index of
        Inl e \<Rightarrow> Some (Inl e)
      | Inr q \<Rightarrow>
          if q \<noteq> index then
            Option.bind (find_root parent q) (\<lambda>r.
              case r of
                Inl e \<Rightarrow> Some (Inl e)
              | Inr (parent1, rt) \<Rightarrow>
                  Some (ebind (setitem parent1 index rt) (\<lambda>parent2.
                        ebind (getitem parent2 index) (\<lambda>v. Inr (parent2, v)))))
          else Some (ebind (getitem parent index) (\<lambda>v. Inr (parent, v))))"

text \<open>\<^verbatim>\<open>canonize\<close>: one pass over the order, \<^verbatim>\<open>parent[p] = parent[q]\<close> when
  \<open>q = parent[p]\<close> has the value of its own parent.\<close>

definition canonize_step :: "'a list \<Rightarrow> int list \<Rightarrow> int \<Rightarrow> error + int list" where
  "canonize_step img parent p =
     ebind (getitem parent p) (\<lambda>q.
     ebind (getitem img q) (\<lambda>iq.
     ebind (getitem parent q) (\<lambda>pq.
     ebind (getitem img pq) (\<lambda>ipq.
       if iq = ipq then setitem parent p pq else Inr parent))))"

definition canonize :: "'a list \<Rightarrow> int list \<Rightarrow> int list \<Rightarrow> error + int list" where
  "canonize img parent sorted_indices = efold (canonize_step img) sorted_indices parent"

text \<open>A loop whose body may raise or not return.\<close>

fun ofold :: "('s \<Rightarrow> 'x \<Rightarrow> (error + 's) option) \<Rightarrow> 'x list \<Rightarrow> 's \<Rightarrow> (error + 's) option" where
  "ofold f [] s = Some (Inr s)"
| "ofold f (x # xs) s =
     (case f s x of
        None \<Rightarrow> None
      | Some (Inl e) \<Rightarrow> Some (Inl e)
      | Some (Inr s') \<Rightarrow> ofold f xs s')"

text \<open>
  The body of the inner loop of \<^verbatim>\<open>_build_max_tree\<close> for the pixel \<open>p\<close> and the
  neighbour number \<open>i\<close>; the state is the pair of \<open>parent\<close> and \<open>zpar\<close>, and \<open>rt\<close>
  is the source's \<^verbatim>\<open>root\<close>. The mask \<open>msk\<close> is an array of bytes.
\<close>

definition neighbor_step ::
  "8 word list \<Rightarrow> 32 word list \<Rightarrow> nat list \<Rightarrow> int list list \<Rightarrow> int
     \<Rightarrow> int list \<times> int list \<Rightarrow> nat \<Rightarrow> (error + int list \<times> int list) option" where
  "neighbor_step msk structure shape points p s i =
     (case s of (parent, zpar) \<Rightarrow>
      case getitem structure (int i) of
        Inl e \<Rightarrow> Some (Inl e)
      | Inr off \<Rightarrow>
          (let index = p + sint off in
           case ebind (getitem msk p) (\<lambda>m.
                  if m = 0
                  then ebind (getitem points (int i)) (\<lambda>pt. is_valid_coordinate p pt shape)
                  else Inr True) of
             Inl e \<Rightarrow> Some (Inl e)
           | Inr valid \<Rightarrow>
               if \<not> valid then Some (Inr (parent, zpar))
               else
                 (case getitem parent index of
                    Inl e \<Rightarrow> Some (Inl e)
                  | Inr v \<Rightarrow>
                      if v < 0 then Some (Inr (parent, zpar))
                      else
                        (case find_root zpar index of
                           None \<Rightarrow> None
                         | Some (Inl e) \<Rightarrow> Some (Inl e)
                         | Some (Inr (zpar1, rt)) \<Rightarrow>
                             if rt \<noteq> p
                             then Some (ebind (setitem zpar1 rt p) (\<lambda>zpar2.
                                        ebind (setitem parent rt p) (\<lambda>parent1.
                                          Inr (parent1, zpar2))))
                             else Some (Inr (parent, zpar1))))))"

definition pixel_step ::
  "8 word list \<Rightarrow> 32 word list \<Rightarrow> nat list \<Rightarrow> int list list
     \<Rightarrow> int list \<times> int list \<Rightarrow> int \<Rightarrow> (error + int list \<times> int list) option" where
  "pixel_step msk structure shape points s p =
     (case s of (parent, zpar) \<Rightarrow>
      case ebind (setitem parent p p) (\<lambda>parent1.
           ebind (setitem zpar p p) (\<lambda>zpar1. Inr (parent1, zpar1))) of
        Inl e \<Rightarrow> Some (Inl e)
      | Inr s1 \<Rightarrow>
          ofold (neighbor_step msk structure shape points p) [0..<length structure] s1)"

definition init_step :: "int list \<times> int list \<Rightarrow> nat \<Rightarrow> error + int list \<times> int list" where
  "init_step s i =
     (case s of (parent, zpar) \<Rightarrow>
      ebind (setitem parent (int i) (- 1)) (\<lambda>parent1.
      ebind (setitem zpar (int i) (- 1)) (\<lambda>zpar1. Inr (parent1, zpar1))))"

text \<open>
  \<^verbatim>\<open>_build_max_tree\<close>. Its second statement is
  \<^verbatim>\<open>number_of_dimensions = len(strides)\<close>. The file binds the name \<^verbatim>\<open>strides\<close>
  nowhere: it is no argument, no local, no global and no import. Reading it raises
  \<^verbatim>\<open>NameError\<close>, and that is the value of \<open>strides\<close> here. So every call ends at that
  statement.
\<close>

definition strides :: "error + int list" where
  "strides = Inl NameError"

text \<open>
  The statements that follow it are \<open>build_max_tree_rest\<close>:
  \<^verbatim>\<open>zpar = parent.copy()\<close>, which raises \<^verbatim>\<open>ValueError\<close> on an array without
  elements; the points of the offsets; \<open>-1\<close> into \<open>parent\<close> and \<open>zpar\<close>; the sweep over the
  reversed order; and \<^verbatim>\<open>canonize\<close>. The result is the array \<open>parent\<close> as these
  statements leave it.
\<close>

definition memoryview_copy :: "'x list \<Rightarrow> error + 'x list" where
  "memoryview_copy xs = (if xs = [] then Inl ValueError else Inr xs)"

definition build_max_tree_rest ::
  "'a list \<Rightarrow> 8 word list \<Rightarrow> 32 word list \<Rightarrow> nat list \<Rightarrow> int list \<Rightarrow> int list
     \<Rightarrow> (error + int list) option" where
  "build_max_tree_rest img msk structure shape parent sorted_indices =
     (case ebind (memoryview_copy parent) (\<lambda>zpar.
           ebind (offsets_to_points structure shape) (\<lambda>points.
           ebind (efold init_step [0..<length img] (parent, zpar)) (\<lambda>s. Inr (points, s)))) of
        Inl e \<Rightarrow> Some (Inl e)
      | Inr (points, s) \<Rightarrow>
          (case ofold (pixel_step msk structure shape points) (rev sorted_indices) s of
             None \<Rightarrow> None
           | Some (Inl e) \<Rightarrow> Some (Inl e)
           | Some (Inr (parent1, zpar1)) \<Rightarrow> Some (canonize img parent1 sorted_indices)))"

definition build_max_tree ::
  "'a list \<Rightarrow> 8 word list \<Rightarrow> 32 word list \<Rightarrow> nat list \<Rightarrow> int list \<Rightarrow> int list
     \<Rightarrow> (error + int list) option" where
  "build_max_tree img msk structure shape parent sorted_indices =
     (case strides of
        Inl e \<Rightarrow> Some (Inl e)
      | Inr number_of_dimensions \<Rightarrow>
          build_max_tree_rest img msk structure shape parent sorted_indices)"

declare find_root.simps [code]

section \<open>Notions used to state and prove the claims about the builder\<close>

text \<open>The flat index of coordinates, first dimension fastest (that is, of reversed
  coordinates in a reversed shape), and coordinates that lie inside a shape.\<close>

fun ravel_rev :: "int list \<Rightarrow> nat list \<Rightarrow> int" where
  "ravel_rev (c # cs) (n # ns) = c + int n * ravel_rev cs ns"
| "ravel_rev _ _ = 0"

definition inside :: "int list \<Rightarrow> nat list \<Rightarrow> bool" where
  "inside cs ns = list_all2 (\<lambda>c n. 0 \<le> c \<and> c < int n) cs ns"

text \<open>
  The union-find array \<open>zpar\<close> over the pixels \<open>D\<close> visited so far: it stays inside \<open>D\<close>
  and never points to a later pixel of the order.
\<close>

definition uf_inv :: "int list \<Rightarrow> int list \<Rightarrow> int set \<Rightarrow> bool" where
  "uf_inv sorted_indices zpar D =
     (\<forall>x \<in> D. zpar ! nat x \<in> D \<and> pos sorted_indices (zpar ! nat x) \<le> pos sorted_indices x)"

text \<open>
  What the sweep of \<^verbatim>\<open>_build_max_tree\<close> asks of its arguments, for \<open>P\<close> pixels: the order is a
  permutation of \<open>[0, P)\<close>; the shape has \<open>P\<close> pixels; the offsets unravel
  (\<^verbatim>\<open>offsets_to_points\<close> returns \<open>points\<close>); and every pixel whose mask is not zero
  has all its neighbours \<open>p + structure[i]\<close> inside \<open>[0, P)\<close>, which is what a mask that is
  zero on the border gives.
\<close>

definition build_pre ::
  "nat \<Rightarrow> 8 word list \<Rightarrow> 32 word list \<Rightarrow> nat list \<Rightarrow> int list list \<Rightarrow> int list \<Rightarrow> bool" where
  "build_pre P msk structure shape points sorted_indices =
     (distinct sorted_indices \<and> set sorted_indices = {0..<int P} \<and>
      length msk = P \<and> prod_list shape = P \<and>
      offsets_to_points structure shape = Inr points \<and>
      (\<forall>p \<in> set sorted_indices. msk ! nat p \<noteq> 0 \<longrightarrow>
         (\<forall>off \<in> set structure. 0 \<le> p + sint off \<and> p + sint off < int P)))"

text \<open>
  The state of the sweep once the pixels \<open>D\<close> have been visited: \<open>parent\<close> and \<open>zpar\<close>
  stay inside \<open>D\<close> and never point to a later pixel of the order, and \<open>parent\<close> is \<open>-1\<close>
  at every pixel not visited yet.
\<close>

definition sweep_inv :: "int list \<Rightarrow> nat \<Rightarrow> int set \<Rightarrow> int list \<times> int list \<Rightarrow> bool" where
  "sweep_inv sorted_indices P D s =
     (case s of (parent, zpar) \<Rightarrow>
        length parent = P \<and> length zpar = P \<and>
        uf_inv sorted_indices parent D \<and> uf_inv sorted_indices zpar D \<and>
        (\<forall>x \<in> set sorted_indices. x \<notin> D \<longrightarrow> parent ! nat x = - 1))"

text \<open>A canonical pixel: a root of the forest, or a pixel whose parent has another value.\<close>

definition canonical :: "'a list \<Rightarrow> int list \<Rightarrow> int \<Rightarrow> bool" where
  "canonical img parent c = (parent ! nat c = c \<or> img ! nat (parent ! nat c) \<noteq> img ! nat c)"

section \<open>The same functions on arrays that may share memory\<close>

text \<open>
  The definitions above take each array as a value of its own. A caller passes
  memoryviews, and two of them may view one buffer: then a write through one is read through
  the other. Here the memory maps a buffer (a number) to its contents, and the functions
  take buffers. A cell holds a number: the values of the ten pixel types, the indices and
  the attributes all lie in the reals with their order, equality and zero, and an index is
  read from a cell by \<open>floor\<close>. A \<^verbatim>\<open>for\<close> loop over a memoryview reads element \<open>k\<close>
  when it gets to it.
\<close>

type_synonym memory = "nat \<Rightarrow> real list"

definition store :: "memory \<Rightarrow> nat \<Rightarrow> int \<Rightarrow> real \<Rightarrow> error + memory" where
  "store m b i v = ebind (setitem (m b) i v) (\<lambda>xs. Inr (m(b := xs)))"

definition load_index :: "memory \<Rightarrow> nat \<Rightarrow> int \<Rightarrow> error + int" where
  "load_index m b i = ebind (getitem (m b) i) (\<lambda>v. Inr \<lfloor>v\<rfloor>)"

definition mem_write_root :: "memory \<Rightarrow> nat \<Rightarrow> nat \<Rightarrow> nat \<Rightarrow> real \<Rightarrow> int \<Rightarrow> error + memory" where
  "mem_write_root m image_buf output_buf attribute_buf attribute_threshold p_root =
     ebind (getitem (m attribute_buf) p_root) (\<lambda>a.
       if a < attribute_threshold then store m output_buf p_root 0
       else ebind (getitem (m image_buf) p_root) (\<lambda>v. store m output_buf p_root v))"

definition mem_direct_step ::
  "nat \<Rightarrow> nat \<Rightarrow> nat \<Rightarrow> nat \<Rightarrow> nat \<Rightarrow> real \<Rightarrow> int \<Rightarrow> memory \<Rightarrow> nat \<Rightarrow> error + memory" where
  "mem_direct_step image_buf output_buf parent_buf sorted_buf attribute_buf attribute_threshold
       p_root m k =
     ebind (load_index m sorted_buf (int k)) (\<lambda>p.
       if p = p_root then Inr m
       else ebind (load_index m parent_buf p) (\<lambda>q.
            ebind (getitem (m image_buf) p) (\<lambda>ip.
            ebind (getitem (m image_buf) q) (\<lambda>iq.
              if ip = iq
              then ebind (getitem (m output_buf) q) (\<lambda>oq. store m output_buf p oq)
              else ebind (getitem (m attribute_buf) p) (\<lambda>a.
                if a < attribute_threshold
                then ebind (getitem (m output_buf) q) (\<lambda>oq. store m output_buf p oq)
                else store m output_buf p ip)))))"

definition mem_direct_filter ::
  "memory \<Rightarrow> nat \<Rightarrow> nat \<Rightarrow> nat \<Rightarrow> nat \<Rightarrow> nat \<Rightarrow> real \<Rightarrow> error + memory" where
  "mem_direct_filter m image_buf output_buf parent_buf sorted_buf attribute_buf
       attribute_threshold =
     ebind (load_index m sorted_buf 0) (\<lambda>p_root.
     ebind (mem_write_root m image_buf output_buf attribute_buf attribute_threshold p_root)
       (\<lambda>m1.
         efold (mem_direct_step image_buf output_buf parent_buf sorted_buf attribute_buf
                  attribute_threshold p_root)
           [0..<length (m sorted_buf)] m1))"

definition mem_cut_first_step ::
  "nat \<Rightarrow> nat \<Rightarrow> nat \<Rightarrow> nat \<Rightarrow> nat \<Rightarrow> real \<Rightarrow> int \<Rightarrow> memory \<Rightarrow> nat \<Rightarrow> error + memory" where
  "mem_cut_first_step image_buf output_buf parent_buf sorted_buf attribute_buf
       attribute_threshold p_root m k =
     ebind (load_index m sorted_buf (int k)) (\<lambda>p.
       if p = p_root then Inr m
       else ebind (load_index m parent_buf p) (\<lambda>q.
            ebind (getitem (m image_buf) p) (\<lambda>ip.
            ebind (getitem (m image_buf) q) (\<lambda>iq.
              if ip = iq
              then ebind (getitem (m output_buf) q) (\<lambda>oq. store m output_buf p oq)
              else ebind (getitem (m attribute_buf) p) (\<lambda>a.
                if a < attribute_threshold
                then ebind (getitem (m output_buf) q) (\<lambda>oq. store m output_buf p oq)
                else ebind (getitem (m output_buf) q) (\<lambda>oq.
                  if oq < iq then store m output_buf p oq
                  else store m output_buf p ip))))))"

definition mem_cut_first_filter ::
  "memory \<Rightarrow> nat \<Rightarrow> nat \<Rightarrow> nat \<Rightarrow> nat \<Rightarrow> nat \<Rightarrow> real \<Rightarrow> error + memory" where
  "mem_cut_first_filter m image_buf output_buf parent_buf sorted_buf attribute_buf
       attribute_threshold =
     ebind (load_index m sorted_buf 0) (\<lambda>p_root.
     ebind (mem_write_root m image_buf output_buf attribute_buf attribute_threshold p_root)
       (\<lambda>m1.
         efold (mem_cut_first_step image_buf output_buf parent_buf sorted_buf attribute_buf
                  attribute_threshold p_root)
           [0..<length (m sorted_buf)] m1))"

text \<open>
  \<^verbatim>\<open>_compute_area\<close> allocates its result, \<^verbatim>\<open>np.ones(len(image))\<close>: the buffer
  \<open>area_buf\<close> that the allocator hands out, which is none of the buffers in use. The loop
  runs over the reversed view \<^verbatim>\<open>sorted_indices[::-1]\<close>.
\<close>

definition mem_area_step :: "nat \<Rightarrow> nat \<Rightarrow> nat \<Rightarrow> int \<Rightarrow> memory \<Rightarrow> nat \<Rightarrow> error + memory" where
  "mem_area_step area_buf parent_buf sorted_buf p_root m k =
     ebind (load_index m sorted_buf (int k)) (\<lambda>p.
       if p = p_root then Inr m
       else ebind (load_index m parent_buf p) (\<lambda>q.
            ebind (getitem (m area_buf) q) (\<lambda>aq.
            ebind (getitem (m area_buf) p) (\<lambda>ap.
            store m area_buf q (aq + ap)))))"

definition mem_compute_area :: "memory \<Rightarrow> nat \<Rightarrow> nat \<Rightarrow> nat \<Rightarrow> nat \<Rightarrow> error + memory" where
  "mem_compute_area m area_buf image_buf parent_buf sorted_buf =
     ebind (load_index m sorted_buf 0) (\<lambda>p_root.
       efold (mem_area_step area_buf parent_buf sorted_buf p_root)
         (rev [0..<length (m sorted_buf)])
         (m(area_buf := replicate (length (m image_buf)) 1)))"

text \<open>A result of the functions on values, put back into the memory as the buffer \<open>b\<close>.\<close>

definition put_buffer :: "memory \<Rightarrow> nat \<Rightarrow> error + real list \<Rightarrow> error + memory" where
  "put_buffer m b r = (case r of Inl e \<Rightarrow> Inl e | Inr xs \<Rightarrow> Inr (m(b := xs)))"

section \<open>Basic facts\<close>

lemma getitem_in: "0 \<le> i \<Longrightarrow> i < int (length xs) \<Longrightarrow> getitem xs i = Inr (xs ! nat i)"
  by (simp add: getitem_def)

lemma setitem_in: "0 \<le> i \<Longrightarrow> i < int (length xs) \<Longrightarrow> setitem xs i v = Inr (xs[nat i := v])"
  by (simp add: setitem_def)

lemma ebind_Inr [simp]: "ebind (Inr x) f = f x"
  by (simp add: ebind_def)

lemma ebind_Inl [simp]: "ebind (Inl e) f = Inl e"
  by (simp add: ebind_def)

lemma efold_write_once:
  assumes step: "\<And>out p. p \<in> set todo \<Longrightarrow> length out = P \<Longrightarrow>
             f out p = Inr (out[nat p := g p (out ! nat (parent ! nat p))])"
    and "parents_first parent seen todo"
    and "distinct todo" and "set seen \<inter> set todo = {}"
    and "\<forall>p \<in> set seen \<union> set todo. 0 \<le> p \<and> p < int P"
    and "length out = P"
  shows "\<exists>out'. efold f todo out = Inr out' \<and> length out' = P \<and>
           (\<forall>i. int i \<notin> set todo \<longrightarrow> out' ! i = out ! i) \<and>
           (\<forall>p \<in> set todo. out' ! nat p = g p (out' ! nat (parent ! nat p)))"
  using assms
proof (induction todo arbitrary: seen out)
  case Nil
  then show ?case by simp
next
  case (Cons p ps)
  let ?q = "parent ! nat p"
  let ?out1 = "out[nat p := g p (out ! nat ?q)]"
  have fp: "f out p = Inr ?out1"
    using Cons.prems(1)[of p out] Cons.prems(6) by simp
  have q_seen: "?q \<in> set seen" and pf: "parents_first parent (seen @ [p]) ps"
    using Cons.prems(2) by simp_all
  have p_rng: "0 \<le> p" "p < int P" using Cons.prems(5) by simp_all
  have q_rng: "0 \<le> ?q" "?q < int P" using Cons.prems(5) q_seen by auto
  have q_ne: "?q \<noteq> p" "?q \<notin> set ps" using q_seen Cons.prems(4) by auto
  have p_notin: "p \<notin> set ps" using Cons.prems(3) by simp
  have "\<exists>out'. efold f ps ?out1 = Inr out' \<and> length out' = P \<and>
           (\<forall>i. int i \<notin> set ps \<longrightarrow> out' ! i = ?out1 ! i) \<and>
           (\<forall>p \<in> set ps. out' ! nat p = g p (out' ! nat (parent ! nat p)))"
  proof (rule Cons.IH[OF _ pf])
    show "\<And>out p. p \<in> set ps \<Longrightarrow> length out = P \<Longrightarrow>
             f out p = Inr (out[nat p := g p (out ! nat (parent ! nat p))])"
      using Cons.prems(1) by simp
    show "distinct ps" using Cons.prems(3) by simp
    show "set (seen @ [p]) \<inter> set ps = {}" using Cons.prems(3,4) by auto
    show "\<forall>p\<in>set (seen @ [p]) \<union> set ps. 0 \<le> p \<and> p < int P" using Cons.prems(5) by auto
    show "length ?out1 = P" using Cons.prems(6) by simp
  qed
  then obtain out' where o: "efold f ps ?out1 = Inr out'" "length out' = P"
      "\<forall>i. int i \<notin> set ps \<longrightarrow> out' ! i = ?out1 ! i"
      "\<forall>p \<in> set ps. out' ! nat p = g p (out' ! nat (parent ! nat p))"
    by blast
  have e: "efold f (p # ps) out = Inr out'" using fp o(1) by simp
  have at_p: "out' ! nat p = ?out1 ! nat p" using o(3) p_notin p_rng by simp
  have at_q: "out' ! nat ?q = ?out1 ! nat ?q" using o(3) q_ne q_rng by simp
  have "nat ?q \<noteq> nat p" using q_ne p_rng q_rng by simp
  then have q1: "?out1 ! nat ?q = out ! nat ?q" by simp
  have p1: "?out1 ! nat p = g p (out ! nat ?q)" using p_rng Cons.prems(6) by simp
  have rule_p: "out' ! nat p = g p (out' ! nat ?q)" using at_p at_q q1 p1 by simp
  have frame: "\<forall>i. int i \<notin> set (p # ps) \<longrightarrow> out' ! i = out ! i"
  proof (intro allI impI)
    fix i assume "int i \<notin> set (p # ps)"
    then have "int i \<notin> set ps" "i \<noteq> nat p" using p_rng by auto
    then show "out' ! i = out ! i" using o(3) by simp
  qed
  show ?case using e o(2) frame rule_p o(4) by auto
qed

lemma parents_first_induct:
  assumes "parents_first parent seen todo"
    and "\<forall>x \<in> set seen. Q x"
    and "\<And>p. p \<in> set todo \<Longrightarrow> Q (parent ! nat p) \<Longrightarrow> Q p"
  shows "\<forall>p \<in> set todo. Q p"
  using assms
proof (induction todo arbitrary: seen)
  case Nil
  then show ?case by simp
next
  case (Cons p ps)
  have qp: "Q p" using Cons.prems by simp
  have "\<forall>x \<in> set ps. Q x"
    by (rule Cons.IH[of "seen @ [p]"]) (use Cons.prems qp in auto)
  then show ?case using qp by simp
qed

lemma parents_first_parent_in:
  "parents_first parent seen todo \<Longrightarrow> p \<in> set todo \<Longrightarrow>
     parent ! nat p \<in> set seen \<union> set todo"
proof (induction todo arbitrary: seen)
  case Nil
  then show ?case by simp
next
  case (Cons a ps)
  show ?case
  proof (cases "p = a")
    case True
    then show ?thesis using Cons.prems(1) by simp
  next
    case False
    then have "p \<in> set ps" using Cons.prems(2) by simp
    moreover have "parents_first parent (seen @ [a]) ps" using Cons.prems(1) by simp
    ultimately have "parent ! nat p \<in> set (seen @ [a]) \<union> set ps" by (rule Cons.IH[rotated])
    then show ?thesis by auto
  qed
qed

lemma tree_order_cons:
  assumes "tree_order P parent S"
  obtains r ps where "S = r # ps" "parents_first parent [r] ps" "distinct (r # ps)"
    "\<forall>p \<in> set (r # ps). 0 \<le> p \<and> p < int P" "length parent = P"
  using assms by (cases S) (auto simp: tree_order_def)

lemma tree_order_parent_in:
  assumes "tree_order P parent S" "p \<in> set (tl S)"
  shows "parent ! nat p \<in> set S" "p \<noteq> hd S" "p \<in> set S"
proof -
  from assms(1) obtain r ps where S: "S = r # ps" and pf: "parents_first parent [r] ps"
    and d: "distinct (r # ps)" by (rule tree_order_cons)
  show "parent ! nat p \<in> set S"
    using parents_first_parent_in[OF pf, of p] assms(2) S by auto
  show "p \<noteq> hd S" using d assms(2) S by auto
  show "p \<in> set S" using assms(2) S by simp
qed

lemma tree_order_range:
  "tree_order P parent S \<Longrightarrow> p \<in> set S \<Longrightarrow> 0 \<le> p \<and> p < int P"
  by (simp add: tree_order_def)

lemma tree_order_induct:
  assumes "tree_order P parent S" and "Q (hd S)"
    and "\<And>p. p \<in> set (tl S) \<Longrightarrow> Q (parent ! nat p) \<Longrightarrow> Q p"
  shows "\<forall>p \<in> set S. Q p"
proof -
  from assms(1) obtain r ps where S: "S = r # ps" and pf: "parents_first parent [r] ps"
    by (rule tree_order_cons)
  have "\<forall>p \<in> set ps. Q p"
    by (rule parents_first_induct[OF pf]) (use assms(2,3) S in auto)
  then show ?thesis using assms(2) S by simp
qed

section \<open>What the filters leave in the output\<close>

lemma write_root_in:
  assumes "0 \<le> r" "r < int P" "length img = P" "length output = P" "length attribute = P"
  shows "write_root img output attribute thr r =
           Inr (output[nat r := (if attribute ! nat r < thr then 0 else img ! nat r)])"
  using assms by (simp add: write_root_def getitem_in setitem_in)

lemma direct_step_in:
  assumes "p \<noteq> r" "0 \<le> p" "p < int P" "0 \<le> parent ! nat p" "parent ! nat p < int P"
    "length parent = P" "length img = P" "length out = P" "length attribute = P"
  shows "direct_step img parent attribute thr r out p =
           Inr (out[nat p := (if img ! nat p = img ! nat (parent ! nat p) then out ! nat (parent ! nat p)
                              else if attribute ! nat p < thr then out ! nat (parent ! nat p)
                              else img ! nat p)])"
  using assms by (simp add: direct_step_def getitem_in setitem_in)

lemma cut_first_step_in:
  assumes "p \<noteq> r" "0 \<le> p" "p < int P" "0 \<le> parent ! nat p" "parent ! nat p < int P"
    "length parent = P" "length img = P" "length out = P" "length attribute = P"
  shows "cut_first_step img parent attribute thr r out p =
           Inr (out[nat p := (if img ! nat p = img ! nat (parent ! nat p) then out ! nat (parent ! nat p)
                              else if attribute ! nat p < thr \<or> out ! nat (parent ! nat p) < img ! nat (parent ! nat p)
                              then out ! nat (parent ! nat p)
                              else img ! nat p)])"
  using assms by (simp add: cut_first_step_def getitem_in setitem_in)

lemma root_then_loop:
  fixes out0 :: "'a list"
  assumes "tree_order P parent S" "length out0 = P"
    and step: "\<And>(out :: 'a list) p. p \<in> set (tl S) \<Longrightarrow> length out = P \<Longrightarrow>
             f out p = Inr (out[nat p := g p (out ! nat (parent ! nat p))])"
    and skip: "\<And>out. f out (hd S) = Inr out"
  shows "\<exists>out. efold f S (out0[nat (hd S) := v]) = Inr out \<and> length out = P \<and>
      out ! nat (hd S) = v \<and>
      (\<forall>p \<in> set (tl S). out ! nat p = g p (out ! nat (parent ! nat p))) \<and>
      (\<forall>i. int i \<notin> set S \<longrightarrow> out ! i = out0 ! i)"
proof -
  from assms(1) obtain r ps where S: "S = r # ps" and pf: "parents_first parent [r] ps"
    and d: "distinct (r # ps)" and rng: "\<forall>p \<in> set (r # ps). 0 \<le> p \<and> p < int P"
    by (rule tree_order_cons)
  let ?out1 = "out0[nat r := v]"
  have r_rng: "0 \<le> r" "r < int P" using rng by simp_all
  have step': "\<And>(out :: 'a list) p. p \<in> set ps \<Longrightarrow> length out = P \<Longrightarrow>
             f out p = Inr (out[nat p := g p (out ! nat (parent ! nat p))])"
    using step S by simp
  have "\<exists>out'. efold f ps ?out1 = Inr out' \<and> length out' = P \<and>
           (\<forall>i. int i \<notin> set ps \<longrightarrow> out' ! i = ?out1 ! i) \<and>
           (\<forall>p \<in> set ps. out' ! nat p = g p (out' ! nat (parent ! nat p)))"
    by (rule efold_write_once[where seen="[r]", OF step' pf])
       (use d rng assms(2) in auto)
  then obtain out' where o: "efold f ps ?out1 = Inr out'" "length out' = P"
      "\<forall>i. int i \<notin> set ps \<longrightarrow> out' ! i = ?out1 ! i"
      "\<forall>p \<in> set ps. out' ! nat p = g p (out' ! nat (parent ! nat p))"
    by blast
  have run: "efold f S (out0[nat (hd S) := v]) = Inr out'"
    using S o(1) skip[of ?out1] by simp
  have "int (nat r) \<notin> set ps" using d r_rng by simp
  then have at_r: "out' ! nat r = ?out1 ! nat r" using o(3) by blast
  have root: "out' ! nat (hd S) = v"
    using at_r S r_rng assms(2) by simp
  have frame: "\<forall>i. int i \<notin> set S \<longrightarrow> out' ! i = out0 ! i"
  proof (intro allI impI)
    fix i assume "int i \<notin> set S"
    then have "int i \<notin> set ps" "i \<noteq> nat r" using S r_rng by auto
    then show "out' ! i = out0 ! i" using o(3) by simp
  qed
  show ?thesis using run o(2) root o(4) frame S by auto
qed

lemma tree_order_hd:
  assumes "tree_order P parent S"
  shows "getitem S 0 = Inr (hd S)" "0 \<le> hd S" "hd S < int P" "hd S \<in> set S"
  using assms by (cases S; simp add: tree_order_def getitem_def)+

lemma direct_filter_post:
  assumes "tree_order P parent S" "length img = P" "length output = P" "length attribute = P"
  shows "\<exists>out. direct_filter img output parent S attribute thr = Inr out \<and> length out = P \<and>
      out ! nat (hd S) = (if attribute ! nat (hd S) < thr then 0 else img ! nat (hd S)) \<and>
      (\<forall>p \<in> set (tl S). out ! nat p =
         (if img ! nat p = img ! nat (parent ! nat p) then out ! nat (parent ! nat p)
          else if attribute ! nat p < thr then out ! nat (parent ! nat p)
          else img ! nat p)) \<and>
      (\<forall>i. int i \<notin> set S \<longrightarrow> out ! i = output ! i)"
proof -
  let ?r = "hd S"
  let ?g = "\<lambda>p oq. (if img ! nat p = img ! nat (parent ! nat p) then oq
                     else if attribute ! nat p < thr then oq else img ! nat p)"
  let ?f = "direct_step img parent attribute thr ?r"
  have lp: "length parent = P" using assms(1) by (simp add: tree_order_def)
  have step: "\<And>(out :: 'a list) p. p \<in> set (tl S) \<Longrightarrow> length out = P \<Longrightarrow>
             ?f out p = Inr (out[nat p := ?g p (out ! nat (parent ! nat p))])"
  proof -
    fix out :: "'a list" and p assume p: "p \<in> set (tl S)" and lo: "length out = P"
    note t = tree_order_parent_in[OF assms(1) p]
    have q: "0 \<le> parent ! nat p" "parent ! nat p < int P"
      using tree_order_range[OF assms(1) t(1)] by simp_all
    have pr: "p \<noteq> ?r" "0 \<le> p" "p < int P"
      using t(2) tree_order_range[OF assms(1) t(3)] by simp_all
    show "?f out p = Inr (out[nat p := ?g p (out ! nat (parent ! nat p))])"
      using direct_step_in[OF pr q lp assms(2) lo assms(4)] by simp
  qed
  have skip: "\<And>out. ?f out ?r = Inr out" by (simp add: direct_step_def)
  have "direct_filter img output parent S attribute thr =
          efold ?f S (output[nat ?r := (if attribute ! nat ?r < thr then 0 else img ! nat ?r)])"
    using tree_order_hd[OF assms(1)] assms(2,3,4)
    by (simp add: direct_filter_def write_root_in)
  then show ?thesis
    using root_then_loop[OF assms(1,3), of ?f ?g, OF step skip] by simp
qed

lemma cut_first_filter_post:
  assumes "tree_order P parent S" "length img = P" "length output = P" "length attribute = P"
  shows "\<exists>out. cut_first_filter img output parent S attribute thr = Inr out \<and> length out = P \<and>
      out ! nat (hd S) = (if attribute ! nat (hd S) < thr then 0 else img ! nat (hd S)) \<and>
      (\<forall>p \<in> set (tl S). out ! nat p =
         (if img ! nat p = img ! nat (parent ! nat p) then out ! nat (parent ! nat p)
          else if attribute ! nat p < thr \<or> out ! nat (parent ! nat p) < img ! nat (parent ! nat p)
          then out ! nat (parent ! nat p)
          else img ! nat p)) \<and>
      (\<forall>i. int i \<notin> set S \<longrightarrow> out ! i = output ! i)"
proof -
  let ?r = "hd S"
  let ?g = "\<lambda>p oq. (if img ! nat p = img ! nat (parent ! nat p) then oq
                     else if attribute ! nat p < thr \<or> oq < img ! nat (parent ! nat p) then oq
                     else img ! nat p)"
  let ?f = "cut_first_step img parent attribute thr ?r"
  have lp: "length parent = P" using assms(1) by (simp add: tree_order_def)
  have step: "\<And>(out :: 'a list) p. p \<in> set (tl S) \<Longrightarrow> length out = P \<Longrightarrow>
             ?f out p = Inr (out[nat p := ?g p (out ! nat (parent ! nat p))])"
  proof -
    fix out :: "'a list" and p assume p: "p \<in> set (tl S)" and lo: "length out = P"
    note t = tree_order_parent_in[OF assms(1) p]
    have q: "0 \<le> parent ! nat p" "parent ! nat p < int P"
      using tree_order_range[OF assms(1) t(1)] by simp_all
    have pr: "p \<noteq> ?r" "0 \<le> p" "p < int P"
      using t(2) tree_order_range[OF assms(1) t(3)] by simp_all
    show "?f out p = Inr (out[nat p := ?g p (out ! nat (parent ! nat p))])"
      using cut_first_step_in[OF pr q lp assms(2) lo assms(4)] by simp
  qed
  have skip: "\<And>out. ?f out ?r = Inr out" by (simp add: cut_first_step_def)
  have "cut_first_filter img output parent S attribute thr =
          efold ?f S (output[nat ?r := (if attribute ! nat ?r < thr then 0 else img ! nat ?r)])"
    using tree_order_hd[OF assms(1)] assms(2,3,4)
    by (simp add: cut_first_filter_def write_root_in)
  then show ?thesis
    using root_then_loop[OF assms(1,3), of ?f ?g, OF step skip] by simp
qed

section \<open>Claims about the filters\<close>

text \<open>
  C2. On a tree in pixel order, with arrays of \<open>P\<close> pixels, \<^verbatim>\<open>_direct_filter\<close>
  returns normally and leaves in the output: at the root \<open>0\<close> when the root's attribute is
  below the threshold and the root's value otherwise; at every other pixel \<open>p\<close> of the
  order, with \<open>q = parent[p]\<close>, the output of \<open>q\<close> when \<open>I[p] = I[q]\<close>, else the
  output of \<open>q\<close> when the attribute of \<open>p\<close> is below the threshold, else \<open>I[p]\<close>.
\<close>

theorem direct_filter_rule:
  assumes "tree_order P parent sorted_indices"
    and "length img = P" and "length out0 = P" and "length attribute = P"
  shows "\<exists>out. direct_filter img out0 parent sorted_indices attribute threshold = Inr out \<and>
      length out = P \<and>
      out ! nat (hd sorted_indices) =
        (if attribute ! nat (hd sorted_indices) < threshold then 0
         else img ! nat (hd sorted_indices)) \<and>
      (\<forall>p \<in> set (tl sorted_indices). out ! nat p =
         (if img ! nat p = img ! nat (parent ! nat p) then out ! nat (parent ! nat p)
          else if attribute ! nat p < threshold then out ! nat (parent ! nat p)
          else img ! nat p))"
  using direct_filter_post[OF assms, of threshold] by blast

theorem direct_filter_rule_witness:
  "tree_order 4 [0, 3, 1, 0] [0, 3, 1, 2] \<and>
   direct_filter [1, 3, 3, 2 :: int] [9, 9, 9, 9] [0, 3, 1, 0] [0, 3, 1, 2] [4, 2, 1, 3] 3
     = Inr [1, 2, 2, 2] \<and>
   (\<exists>out. direct_filter [1, 3, 3, 2 :: int] [9, 9, 9, 9] [0, 3, 1, 0] [0, 3, 1, 2] [4, 2, 1, 3] 3
            = Inr out \<and>
      out ! 0 = 1 \<and> out ! 3 = 2 \<and> out ! 1 = out ! 3 \<and> out ! 2 = out ! 1)"
proof -
  have t: "tree_order 4 [0, 3, 1, 0] [0, 3, 1, 2]"
    by (simp add: tree_order_def)
  have run: "direct_filter [1, 3, 3, 2 :: int] [9, 9, 9, 9] [0, 3, 1, 0] [0, 3, 1, 2] [4, 2, 1, 3] 3
     = Inr [1, 2, 2, 2]"
    by (simp add: direct_filter_def write_root_def direct_step_def getitem_def setitem_def)
  show ?thesis
    using t run
      direct_filter_rule[OF t, of "[1, 3, 3, 2 :: int]" "[9, 9, 9, 9]" "[4, 2, 1, 3]" 3]
    by simp
qed

lemma ancestor_in_order:
  assumes "tree_order P parent S" "ancestor parent (hd S) a d" "d \<in> set S"
  shows "a \<in> set S"
  using assms(2,3)
proof (induction rule: ancestor.induct)
  case (parent d)
  then have "d \<in> set (tl S)" by (cases S) auto
  then show ?case using tree_order_parent_in(1)[OF assms(1)] by simp
next
  case (above d a)
  then have "d \<in> set (tl S)" by (cases S) auto
  then have "parent ! nat d \<in> set S" using tree_order_parent_in(1)[OF assms(1)] by simp
  then show ?case using above.IH by simp
qed

lemma cut_memory:
  fixes out :: "('a::linorder) list"
  assumes t: "tree_order P parent S"
    and mono: "\<forall>p \<in> set (tl S). img ! nat (parent ! nat p) \<le> img ! nat p"
    and rule: "\<forall>p \<in> set (tl S). out ! nat p =
         (if img ! nat p = img ! nat (parent ! nat p) then out ! nat (parent ! nat p)
          else if attribute ! nat p < (thr::real) \<or> out ! nat (parent ! nat p) < img ! nat (parent ! nat p)
          then out ! nat (parent ! nat p)
          else img ! nat p)"
    and anc: "ancestor parent (hd S) a d" and d: "d \<in> set S"
    and cut: "out ! nat a < img ! nat a"
  shows "out ! nat d = out ! nat a \<and> out ! nat d < img ! nat d"
  using anc d cut
proof (induction rule: ancestor.induct)
  case (parent d)
  then have dt: "d \<in> set (tl S)" by (cases S) auto
  have c: "out ! nat (parent ! nat d) < img ! nat (parent ! nat d)" using parent.prems by simp
  have "out ! nat d = out ! nat (parent ! nat d)"
    using bspec[OF rule dt] c by (simp split: if_splits)
  moreover have "img ! nat (parent ! nat d) \<le> img ! nat d" using mono dt by simp
  ultimately show ?case using c by simp
next
  case (above d a')
  then have dt: "d \<in> set (tl S)" by (cases S) auto
  then have q: "parent ! nat d \<in> set S" using tree_order_parent_in(1)[OF t] by simp
  have ih: "out ! nat (parent ! nat d) = out ! nat a'"
      "out ! nat (parent ! nat d) < img ! nat (parent ! nat d)"
    using above.IH[OF q above.prems(2)] by auto
  have "out ! nat d = out ! nat (parent ! nat d)"
    using bspec[OF rule dt] ih(2) by (simp split: if_splits)
  moreover have "img ! nat (parent ! nat d) \<le> img ! nat d" using mono dt by simp
  ultimately show ?case using ih by simp
qed

text \<open>
  C3. On a tree in pixel order, \<^verbatim>\<open>_cut_first_filter\<close> returns normally and leaves
  in the output: at the root \<open>0\<close> or the root's value, as the direct filter does; at every
  other pixel \<open>p\<close> of the order, with \<open>q = parent[p]\<close>, the output of \<open>q\<close> when
  \<open>I[p] = I[q]\<close>, else the output of \<open>q\<close> when the attribute of \<open>p\<close> is below the
  threshold or \<open>output[q] < I[q]\<close>, else \<open>I[p]\<close>. Where values do not decrease from parent
  to child, every descendant \<open>d\<close> of a pruned pixel \<open>a\<close> (\<open>output[a] < I[a]\<close>) gets
  \<open>output[a]\<close>, so nothing above it.
\<close>

theorem cut_first_filter_rule:
  assumes "tree_order P parent sorted_indices"
    and "length img = P" and "length out0 = P" and "length attribute = P"
  shows "\<exists>out. cut_first_filter img out0 parent sorted_indices attribute threshold = Inr out \<and>
      length out = P \<and>
      out ! nat (hd sorted_indices) =
        (if attribute ! nat (hd sorted_indices) < threshold then 0
         else img ! nat (hd sorted_indices)) \<and>
      (\<forall>p \<in> set (tl sorted_indices). out ! nat p =
         (if img ! nat p = img ! nat (parent ! nat p) then out ! nat (parent ! nat p)
          else if attribute ! nat p < threshold \<or>
                  out ! nat (parent ! nat p) < img ! nat (parent ! nat p)
          then out ! nat (parent ! nat p)
          else img ! nat p)) \<and>
      ((\<forall>p \<in> set (tl sorted_indices). img ! nat (parent ! nat p) \<le> img ! nat p) \<longrightarrow>
       (\<forall>d \<in> set sorted_indices. \<forall>a.
          ancestor parent (hd sorted_indices) a d \<and> out ! nat a < img ! nat a \<longrightarrow>
            out ! nat d = out ! nat a \<and> out ! nat d \<le> out ! nat a))"
proof -
  from cut_first_filter_post[OF assms, of threshold] obtain out where
    o: "cut_first_filter img out0 parent sorted_indices attribute threshold = Inr out"
      "length out = P"
      "out ! nat (hd sorted_indices) =
        (if attribute ! nat (hd sorted_indices) < threshold then 0
         else img ! nat (hd sorted_indices))"
      "\<forall>p \<in> set (tl sorted_indices). out ! nat p =
         (if img ! nat p = img ! nat (parent ! nat p) then out ! nat (parent ! nat p)
          else if attribute ! nat p < threshold \<or>
                  out ! nat (parent ! nat p) < img ! nat (parent ! nat p)
          then out ! nat (parent ! nat p)
          else img ! nat p)"
    by blast
  have "\<forall>d \<in> set sorted_indices. \<forall>a.
          ancestor parent (hd sorted_indices) a d \<and> out ! nat a < img ! nat a \<longrightarrow>
            out ! nat d = out ! nat a \<and> out ! nat d \<le> out ! nat a"
    if "\<forall>p \<in> set (tl sorted_indices). img ! nat (parent ! nat p) \<le> img ! nat p"
    using cut_memory[OF assms(1) that o(4)] by auto
  then show ?thesis using o by blast
qed

theorem cut_first_filter_rule_witness:
  "tree_order 4 [0, 0, 1, 2] [0, 1, 2, 3] \<and>
   cut_first_filter [1, 2, 3, 4 :: int] [9, 9, 9, 9] [0, 0, 1, 2] [0, 1, 2, 3] [4, 1, 5, 5] 3
     = Inr [1, 1, 1, 1] \<and>
   direct_filter [1, 2, 3, 4 :: int] [9, 9, 9, 9] [0, 0, 1, 2] [0, 1, 2, 3] [4, 1, 5, 5] 3
     = Inr [1, 1, 3, 4] \<and>
   ancestor [0, 0, 1, 2] 0 1 3 \<and>
   (\<exists>out. cut_first_filter [1, 2, 3, 4 :: int] [9, 9, 9, 9] [0, 0, 1, 2] [0, 1, 2, 3] [4, 1, 5, 5] 3
            = Inr out \<and>
      out ! 0 = 1 \<and> out ! 1 = out ! 0 \<and> out ! 3 = out ! 1)"
proof -
  have t: "tree_order 4 [0, 0, 1, 2] [0, 1, 2, 3]"
    by (simp add: tree_order_def)
  have run: "cut_first_filter [1, 2, 3, 4 :: int] [9, 9, 9, 9] [0, 0, 1, 2] [0, 1, 2, 3] [4, 1, 5, 5] 3
     = Inr [1, 1, 1, 1]"
    by (simp add: cut_first_filter_def write_root_def cut_first_step_def getitem_def setitem_def)
  have run2: "direct_filter [1, 2, 3, 4 :: int] [9, 9, 9, 9] [0, 0, 1, 2] [0, 1, 2, 3] [4, 1, 5, 5] 3
     = Inr [1, 1, 3, 4]"
    by (simp add: direct_filter_def write_root_def direct_step_def getitem_def setitem_def)
  have "ancestor [0, 0, 1, 2] 0 ([0, 0, 1, 2] ! nat 2) 2"
    by (rule ancestor.parent) simp
  then have "ancestor [0, 0, 1, 2] 0 1 2" by simp
  then have "ancestor [0, 0, 1, 2] 0 1 ([0, 0, 1, 2] ! nat 3)" by simp
  then have a: "ancestor [0, 0, 1, 2] 0 1 3"
    by (rule ancestor.above[rotated]) simp
  from cut_first_filter_rule[OF t, of "[1, 2, 3, 4 :: int]" "[9, 9, 9, 9]" "[4, 1, 5, 5]" 3]
  obtain out where o:
    "cut_first_filter [1, 2, 3, 4 :: int] [9, 9, 9, 9] [0, 0, 1, 2] [0, 1, 2, 3] [4, 1, 5, 5] 3 = Inr out"
    "out ! 0 = 1" "out ! 1 = out ! 0"
    "\<forall>d \<in> set [0, 1, 2, 3]. \<forall>a. ancestor [0, 0, 1, 2] 0 a d \<and> out ! nat a < [1, 2, 3, 4] ! nat a \<longrightarrow>
            out ! nat d = out ! nat a \<and> out ! nat d \<le> out ! nat a"
    by auto
  have "out ! nat 3 = out ! nat 1" using o(4) a o(2,3) by auto
  then show ?thesis using t run run2 a o by auto
qed

lemma cut_le_direct:
  fixes oc od :: "('a::linorder) list"
  assumes t: "tree_order P parent S"
    and mono: "\<forall>p \<in> set (tl S). img ! nat (parent ! nat p) \<le> img ! nat p"
    and root: "oc ! nat (hd S) = od ! nat (hd S)"
    and cut: "\<forall>p \<in> set (tl S). oc ! nat p =
         (if img ! nat p = img ! nat (parent ! nat p) then oc ! nat (parent ! nat p)
          else if attribute ! nat p < (thr::real) \<or> oc ! nat (parent ! nat p) < img ! nat (parent ! nat p)
          then oc ! nat (parent ! nat p)
          else img ! nat p)"
    and dir: "\<forall>p \<in> set (tl S). od ! nat p =
         (if img ! nat p = img ! nat (parent ! nat p) then od ! nat (parent ! nat p)
          else if attribute ! nat p < thr then od ! nat (parent ! nat p)
          else img ! nat p)"
  shows "\<forall>p \<in> set S. oc ! nat p \<le> od ! nat p"
proof (rule tree_order_induct[OF t])
  show "oc ! nat (hd S) \<le> od ! nat (hd S)" using root by simp
next
  fix p assume p: "p \<in> set (tl S)"
    and ih: "oc ! nat (parent ! nat p) \<le> od ! nat (parent ! nat p)"
  have m: "img ! nat (parent ! nat p) \<le> img ! nat p" using mono p by simp
  show "oc ! nat p \<le> od ! nat p"
    using bspec[OF cut p] bspec[OF dir p] ih m by (auto split: if_splits)
qed

lemma values_from_image:
  fixes out :: "('a::zero) list"
  assumes t: "tree_order P parent S" and li: "length img = P"
    and root: "out ! nat (hd S) = 0 \<or> out ! nat (hd S) = img ! nat (hd S)"
    and rule: "\<forall>p \<in> set (tl S). out ! nat p = out ! nat (parent ! nat p) \<or> out ! nat p = img ! nat p"
  shows "\<forall>p \<in> set S. out ! nat p = 0 \<or> out ! nat p \<in> set img"
proof (rule tree_order_induct[OF t])
  have "nat (hd S) < length img" using tree_order_hd[OF t] li by simp
  then show "out ! nat (hd S) = 0 \<or> out ! nat (hd S) \<in> set img"
    using root by auto
next
  fix p assume p: "p \<in> set (tl S)"
    and ih: "out ! nat (parent ! nat p) = 0 \<or> out ! nat (parent ! nat p) \<in> set img"
  have "p \<in> set S" using tree_order_parent_in(3)[OF t p] .
  then have "nat p < length img" using tree_order_range[OF t, of p] li by auto
  then have "img ! nat p \<in> set img" by simp
  then show "out ! nat p = 0 \<or> out ! nat p \<in> set img"
    using bspec[OF rule p] ih by auto
qed

text \<open>
  C7. On a tree in pixel order whose values do not decrease from parent to child and whose
  attribute does not increase from parent to child, both filters return normally and, at
  every pixel of the order, the output of \<^verbatim>\<open>_cut_first_filter\<close> is at most the output
  of \<^verbatim>\<open>_direct_filter\<close>. (The proof does not use the hypothesis on the attribute.)
\<close>

theorem cut_first_below_direct:
  assumes "tree_order P parent sorted_indices"
    and "length img = P" and "length out0 = P" and "length out1 = P"
    and "length attribute = P"
    and "\<forall>p \<in> set (tl sorted_indices). img ! nat (parent ! nat p) \<le> img ! nat p"
    and "\<forall>p \<in> set (tl sorted_indices). attribute ! nat p \<le> attribute ! nat (parent ! nat p)"
  shows "\<exists>oc od.
      cut_first_filter img out0 parent sorted_indices attribute threshold = Inr oc \<and>
      direct_filter img out1 parent sorted_indices attribute threshold = Inr od \<and>
      length oc = P \<and> length od = P \<and>
      (\<forall>p \<in> set sorted_indices. oc ! nat p \<le> od ! nat p)"
proof -
  from cut_first_filter_post[OF assms(1,2,3,5), of threshold] obtain oc where
    c: "cut_first_filter img out0 parent sorted_indices attribute threshold = Inr oc"
      "length oc = P"
      "oc ! nat (hd sorted_indices) =
        (if attribute ! nat (hd sorted_indices) < threshold then 0
         else img ! nat (hd sorted_indices))"
      "\<forall>p \<in> set (tl sorted_indices). oc ! nat p =
         (if img ! nat p = img ! nat (parent ! nat p) then oc ! nat (parent ! nat p)
          else if attribute ! nat p < threshold \<or>
                  oc ! nat (parent ! nat p) < img ! nat (parent ! nat p)
          then oc ! nat (parent ! nat p)
          else img ! nat p)"
    by blast
  from direct_filter_post[OF assms(1,2,4,5), of threshold] obtain od where
    d: "direct_filter img out1 parent sorted_indices attribute threshold = Inr od"
      "length od = P"
      "od ! nat (hd sorted_indices) =
        (if attribute ! nat (hd sorted_indices) < threshold then 0
         else img ! nat (hd sorted_indices))"
      "\<forall>p \<in> set (tl sorted_indices). od ! nat p =
         (if img ! nat p = img ! nat (parent ! nat p) then od ! nat (parent ! nat p)
          else if attribute ! nat p < threshold then od ! nat (parent ! nat p)
          else img ! nat p)"
    by blast
  have "oc ! nat (hd sorted_indices) = od ! nat (hd sorted_indices)"
    using c(3) d(3) by simp
  then have "\<forall>p \<in> set sorted_indices. oc ! nat p \<le> od ! nat p"
    using cut_le_direct[OF assms(1,6) _ c(4) d(4)] by blast
  then show ?thesis using c(1,2) d(1,2) by blast
qed

theorem cut_first_below_direct_witness:
  "tree_order 4 [0, 0, 1, 2] [0, 1, 2, 3] \<and>
   cut_first_filter [1, 2, 3, 4 :: int] [9, 9, 9, 9] [0, 0, 1, 2] [0, 1, 2, 3] [4, 3, 2, 1] 3
     = Inr [1, 2, 2, 2] \<and>
   direct_filter [1, 2, 3, 4 :: int] [7, 7, 7, 7] [0, 0, 1, 2] [0, 1, 2, 3] [4, 3, 2, 1] 3
     = Inr [1, 2, 2, 2] \<and>
   (\<exists>oc od.
      cut_first_filter [1, 2, 3, 4 :: int] [9, 9, 9, 9] [0, 0, 1, 2] [0, 1, 2, 3] [4, 3, 2, 1] 3
        = Inr oc \<and>
      direct_filter [1, 2, 3, 4 :: int] [7, 7, 7, 7] [0, 0, 1, 2] [0, 1, 2, 3] [4, 3, 2, 1] 3
        = Inr od \<and>
      oc ! 0 \<le> od ! 0 \<and> oc ! 1 \<le> od ! 1 \<and> oc ! 2 \<le> od ! 2 \<and> oc ! 3 \<le> od ! 3)"
proof -
  have t: "tree_order 4 [0, 0, 1, 2] [0, 1, 2, 3]"
    by (simp add: tree_order_def)
  have run: "cut_first_filter [1, 2, 3, 4 :: int] [9, 9, 9, 9] [0, 0, 1, 2] [0, 1, 2, 3] [4, 3, 2, 1] 3
     = Inr [1, 2, 2, 2]"
    by (simp add: cut_first_filter_def write_root_def cut_first_step_def getitem_def setitem_def)
  have run2: "direct_filter [1, 2, 3, 4 :: int] [7, 7, 7, 7] [0, 0, 1, 2] [0, 1, 2, 3] [4, 3, 2, 1] 3
     = Inr [1, 2, 2, 2]"
    by (simp add: direct_filter_def write_root_def direct_step_def getitem_def setitem_def)
  have "\<exists>oc od.
      cut_first_filter [1, 2, 3, 4 :: int] [9, 9, 9, 9] [0, 0, 1, 2] [0, 1, 2, 3] [4, 3, 2, 1] 3
        = Inr oc \<and>
      direct_filter [1, 2, 3, 4 :: int] [7, 7, 7, 7] [0, 0, 1, 2] [0, 1, 2, 3] [4, 3, 2, 1] 3
        = Inr od \<and>
      length oc = 4 \<and> length od = 4 \<and>
      (\<forall>p \<in> set [0, 1, 2, 3]. oc ! nat p \<le> od ! nat p)"
    by (rule cut_first_below_direct[OF t]) simp_all
  then show ?thesis using t run run2 by simp
qed

text \<open>
  C9. On a tree in pixel order, both filters return normally an array of the type of the
  input's values in which every pixel of the order holds either \<open>0\<close> or the value of some
  pixel of the input.
\<close>

theorem filter_output_values:
  assumes "tree_order P parent sorted_indices"
    and "length img = P" and "length out0 = P" and "length attribute = P"
  shows "(\<exists>out. direct_filter img out0 parent sorted_indices attribute threshold = Inr out \<and>
            length out = P \<and>
            (\<forall>p \<in> set sorted_indices. out ! nat p = 0 \<or> out ! nat p \<in> set img)) \<and>
         (\<exists>out. cut_first_filter img out0 parent sorted_indices attribute threshold = Inr out \<and>
            length out = P \<and>
            (\<forall>p \<in> set sorted_indices. out ! nat p = 0 \<or> out ! nat p \<in> set img))"
proof
  from direct_filter_post[OF assms, of threshold] obtain out where
    o: "direct_filter img out0 parent sorted_indices attribute threshold = Inr out"
      "length out = P"
      "out ! nat (hd sorted_indices) =
        (if attribute ! nat (hd sorted_indices) < threshold then 0
         else img ! nat (hd sorted_indices))"
      "\<forall>p \<in> set (tl sorted_indices). out ! nat p =
         (if img ! nat p = img ! nat (parent ! nat p) then out ! nat (parent ! nat p)
          else if attribute ! nat p < threshold then out ! nat (parent ! nat p)
          else img ! nat p)"
    by blast
  have "\<forall>p \<in> set sorted_indices. out ! nat p = 0 \<or> out ! nat p \<in> set img"
    by (rule values_from_image[OF assms(1,2)]) (use o(3,4) in \<open>auto split: if_splits\<close>)
  then show "\<exists>out. direct_filter img out0 parent sorted_indices attribute threshold = Inr out \<and>
            length out = P \<and>
            (\<forall>p \<in> set sorted_indices. out ! nat p = 0 \<or> out ! nat p \<in> set img)"
    using o(1,2) by blast
next
  from cut_first_filter_post[OF assms, of threshold] obtain out where
    o: "cut_first_filter img out0 parent sorted_indices attribute threshold = Inr out"
      "length out = P"
      "out ! nat (hd sorted_indices) =
        (if attribute ! nat (hd sorted_indices) < threshold then 0
         else img ! nat (hd sorted_indices))"
      "\<forall>p \<in> set (tl sorted_indices). out ! nat p =
         (if img ! nat p = img ! nat (parent ! nat p) then out ! nat (parent ! nat p)
          else if attribute ! nat p < threshold \<or>
                  out ! nat (parent ! nat p) < img ! nat (parent ! nat p)
          then out ! nat (parent ! nat p)
          else img ! nat p)"
    by blast
  have "\<forall>p \<in> set sorted_indices. out ! nat p = 0 \<or> out ! nat p \<in> set img"
    by (rule values_from_image[OF assms(1,2)]) (use o(3,4) in \<open>auto split: if_splits\<close>)
  then show "\<exists>out. cut_first_filter img out0 parent sorted_indices attribute threshold = Inr out \<and>
            length out = P \<and>
            (\<forall>p \<in> set sorted_indices. out ! nat p = 0 \<or> out ! nat p \<in> set img)"
    using o(1,2) by blast
qed

theorem filter_output_values_witness:
  "tree_order 4 [0, 0, 1, 2] [0, 1, 2, 3] \<and>
   direct_filter [5, 6, 7, 8 :: 8 word] [9, 9, 9, 9] [0, 0, 1, 2] [0, 1, 2, 3] [4, 1, 5, 5] 5
     = Inr [0, 0, 7, 8] \<and>
   cut_first_filter [5, 6, 7, 8 :: 8 word] [9, 9, 9, 9] [0, 0, 1, 2] [0, 1, 2, 3] [4, 1, 5, 5] 5
     = Inr [0, 0, 0, 0] \<and>
   (\<exists>out. direct_filter [5, 6, 7, 8 :: 8 word] [9, 9, 9, 9] [0, 0, 1, 2] [0, 1, 2, 3] [4, 1, 5, 5] 5
            = Inr out \<and> length out = 4 \<and>
      (out ! 0 = 0 \<or> out ! 0 \<in> {5, 6, 7, 8}) \<and> (out ! 3 = 0 \<or> out ! 3 \<in> {5, 6, 7, 8}))"
proof -
  have t: "tree_order 4 [0, 0, 1, 2] [0, 1, 2, 3]"
    by (simp add: tree_order_def)
  have run: "direct_filter [5, 6, 7, 8 :: 8 word] [9, 9, 9, 9] [0, 0, 1, 2] [0, 1, 2, 3] [4, 1, 5, 5] 5
     = Inr [0, 0, 7, 8]"
    by (simp add: direct_filter_def write_root_def direct_step_def getitem_def setitem_def)
  have run2: "cut_first_filter [5, 6, 7, 8 :: 8 word] [9, 9, 9, 9] [0, 0, 1, 2] [0, 1, 2, 3] [4, 1, 5, 5] 5
     = Inr [0, 0, 0, 0]"
    by (simp add: cut_first_filter_def write_root_def cut_first_step_def getitem_def setitem_def)
  from filter_output_values[OF t, of "[5, 6, 7, 8 :: 8 word]" "[9, 9, 9, 9]" "[4, 1, 5, 5]" 5]
  show ?thesis using t run run2 by simp
qed

section \<open>Ancestors and subtrees\<close>

lemma pos_in_prefix: "x \<in> set xs \<Longrightarrow> pos (xs @ ys) x < length xs"
  unfolding pos_def
  by (induction xs) auto

lemma pos_after_prefix: "x \<notin> set xs \<Longrightarrow> pos (xs @ x # ys) x = length xs"
  unfolding pos_def
  by (induction xs) auto

lemma parents_first_pos:
  assumes "parents_first parent seen todo" "distinct (seen @ todo)" "p \<in> set todo"
  shows "pos (seen @ todo) (parent ! nat p) < pos (seen @ todo) p"
  using assms
proof (induction todo arbitrary: seen)
  case Nil
  then show ?case by simp
next
  case (Cons a ps)
  show ?case
  proof (cases "p = a")
    case True
    have "parent ! nat a \<in> set seen" using Cons.prems(1) by simp
    then have "pos (seen @ a # ps) (parent ! nat a) < length seen" by (rule pos_in_prefix)
    moreover have "a \<notin> set seen" using Cons.prems(2) by simp
    then have "pos (seen @ a # ps) a = length seen" by (rule pos_after_prefix)
    ultimately show ?thesis using True by simp
  next
    case False
    then have "p \<in> set ps" using Cons.prems(3) by simp
    moreover have "parents_first parent (seen @ [a]) ps" using Cons.prems(1) by simp
    moreover have "distinct ((seen @ [a]) @ ps)" using Cons.prems(2) by simp
    ultimately have "pos ((seen @ [a]) @ ps) (parent ! nat p) < pos ((seen @ [a]) @ ps) p"
      using Cons.IH[of "seen @ [a]"] by blast
    then show ?thesis by simp
  qed
qed

lemma tree_order_pos:
  assumes "tree_order P parent S" "p \<in> set (tl S)"
  shows "pos S (parent ! nat p) < pos S p"
proof -
  from assms(1) obtain r ps where S: "S = r # ps" and pf: "parents_first parent [r] ps"
    and d: "distinct (r # ps)" by (rule tree_order_cons)
  have "pos ([r] @ ps) (parent ! nat p) < pos ([r] @ ps) p"
    by (rule parents_first_pos[OF pf]) (use d assms(2) S in auto)
  then show ?thesis using S by simp
qed

lemma in_tl: "d \<in> set S \<Longrightarrow> d \<noteq> hd S \<Longrightarrow> d \<in> set (tl S)"
  by (cases S) auto

lemma ancestor_pos:
  assumes "tree_order P parent S" "ancestor parent (hd S) a d" "d \<in> set S"
  shows "pos S a < pos S d"
  using assms(2,3)
proof (induction rule: ancestor.induct)
  case (parent d)
  then have "d \<in> set (tl S)" by (simp add: in_tl)
  then show ?case by (rule tree_order_pos[OF assms(1)])
next
  case (above d a)
  then have dt: "d \<in> set (tl S)" by (simp add: in_tl)
  then have "parent ! nat d \<in> set S" using tree_order_parent_in(1)[OF assms(1)] by simp
  then have "pos S a < pos S (parent ! nat d)" using above.IH by simp
  then show ?case using tree_order_pos[OF assms(1) dt] by simp
qed

lemma ancestor_linear:
  assumes "ancestor parent r a d" "ancestor parent r b d"
  shows "a = b \<or> ancestor parent r a b \<or> ancestor parent r b a"
  using assms
proof (induction rule: ancestor.induct)
  case (parent d)
  from parent.prems show ?case
    by (cases rule: ancestor.cases) auto
next
  case (above d a)
  from above.prems show ?case
  proof (cases rule: ancestor.cases)
    case parent
    then show ?thesis using above.hyps by simp
  next
    case above
    then show ?thesis using above.IH by simp
  qed
qed

lemma ancestor_trans:
  assumes "ancestor parent r b d" "ancestor parent r a b"
  shows "ancestor parent r a d"
  using assms
  by (induction rule: ancestor.induct) (auto intro: ancestor.intros)

lemma ancestor_child:
  "ancestor parent r x d \<longleftrightarrow>
     (\<exists>c. c \<noteq> r \<and> parent ! nat c = x \<and> (d = c \<or> ancestor parent r c d))"
proof
  assume "ancestor parent r x d"
  then show "\<exists>c. c \<noteq> r \<and> parent ! nat c = x \<and> (d = c \<or> ancestor parent r c d)"
  proof (induction rule: ancestor.induct)
    case (parent d)
    then show ?case by blast
  next
    case (above d a)
    then obtain c where c: "c \<noteq> r" "parent ! nat c = a"
        "parent ! nat d = c \<or> ancestor parent r c (parent ! nat d)" by blast
    have "ancestor parent r c d"
      using c(3) above.hyps(1) by (auto intro: ancestor.intros)
    then show ?case using c(1,2) by blast
  qed
next
  assume "\<exists>c. c \<noteq> r \<and> parent ! nat c = x \<and> (d = c \<or> ancestor parent r c d)"
  then obtain c where c: "c \<noteq> r" "parent ! nat c = x" "d = c \<or> ancestor parent r c d"
    by blast
  have xc: "ancestor parent r x c" using c(1,2) ancestor.parent by blast
  show "ancestor parent r x d"
    using c(3) xc ancestor_trans by blast
qed

lemma subtree_children:
  assumes t: "tree_order P parent S" and x: "x \<in> set S"
  shows "subtree parent S x =
           insert x (\<Union>c \<in> {c \<in> set (tl S). parent ! nat c = x}. subtree parent S c)"
proof (intro set_eqI iffI)
  fix d assume "d \<in> subtree parent S x"
  then have d: "d \<in> set S" "d = x \<or> ancestor parent (hd S) x d"
    by (simp_all add: subtree_def)
  show "d \<in> insert x (\<Union>c \<in> {c \<in> set (tl S). parent ! nat c = x}. subtree parent S c)"
  proof (cases "d = x")
    case True
    then show ?thesis by simp
  next
    case False
    then have "ancestor parent (hd S) x d" using d(2) by simp
    then obtain c where c: "c \<noteq> hd S" "parent ! nat c = x"
        "d = c \<or> ancestor parent (hd S) c d"
      using ancestor_child[of parent "hd S" x d] by blast
    have "c \<in> set S" using c(3) d(1) ancestor_in_order[OF t] by blast
    then have "c \<in> set (tl S)" using c(1) by (simp add: in_tl)
    moreover have "d \<in> subtree parent S c" using c(3) d(1) by (simp add: subtree_def)
    ultimately show ?thesis using c(2) by blast
  qed
next
  fix d assume "d \<in> insert x (\<Union>c \<in> {c \<in> set (tl S). parent ! nat c = x}. subtree parent S c)"
  then consider "d = x" | c where "c \<in> set (tl S)" "parent ! nat c = x" "d \<in> subtree parent S c"
    by blast
  then show "d \<in> subtree parent S x"
  proof cases
    case 1
    then show ?thesis using x by (simp add: subtree_def)
  next
    case 2
    have "c \<noteq> hd S" using tree_order_parent_in(2)[OF t 2(1)] .
    moreover have "d \<in> set S" "d = c \<or> ancestor parent (hd S) c d"
      using 2(3) by (simp_all add: subtree_def)
    ultimately have "ancestor parent (hd S) x d"
      using ancestor_child[of parent "hd S" x d] 2(2) by blast
    then show ?thesis using \<open>d \<in> set S\<close> by (simp add: subtree_def)
  qed
qed

lemma subtree_not_above:
  assumes t: "tree_order P parent S" and c: "c \<in> set (tl S)" and d: "d \<in> subtree parent S c"
  shows "pos S (parent ! nat c) < pos S d"
proof -
  have "d \<in> set S" "d = c \<or> ancestor parent (hd S) c d"
    using d by (simp_all add: subtree_def)
  then have "pos S c \<le> pos S d" using ancestor_pos[OF t, of c d] by auto
  then show ?thesis using tree_order_pos[OF t c] by simp
qed

lemma not_ancestor_of_parent:
  assumes t: "tree_order P parent S" and c: "c \<in> set (tl S)"
  shows "\<not> ancestor parent (hd S) c (parent ! nat c)" "c \<noteq> parent ! nat c"
proof -
  have lt: "pos S (parent ! nat c) < pos S c" by (rule tree_order_pos[OF t c])
  then show "c \<noteq> parent ! nat c" by auto
  show "\<not> ancestor parent (hd S) c (parent ! nat c)"
  proof
    assume "ancestor parent (hd S) c (parent ! nat c)"
    then have "pos S c < pos S (parent ! nat c)"
      by (rule ancestor_pos[OF t]) (rule tree_order_parent_in(1)[OF t c])
    then show False using lt by simp
  qed
qed

lemma siblings_unrelated:
  assumes t: "tree_order P parent S"
    and c: "c \<in> set (tl S)" "c' \<in> set (tl S)" "parent ! nat c = parent ! nat c'"
  shows "\<not> ancestor parent (hd S) c c'"
proof
  assume "ancestor parent (hd S) c c'"
  then show False
  proof (cases rule: ancestor.cases)
    case parent
    then show ?thesis using not_ancestor_of_parent(2)[OF t c(1)] c(3) by simp
  next
    case above
    then show ?thesis using not_ancestor_of_parent(1)[OF t c(1)] c(3) by simp
  qed
qed

lemma subtree_disjoint:
  assumes t: "tree_order P parent S"
    and c: "c \<in> set (tl S)" "c' \<in> set (tl S)" "parent ! nat c = parent ! nat c'" "c \<noteq> c'"
  shows "subtree parent S c \<inter> subtree parent S c' = {}"
proof (rule ccontr)
  assume "subtree parent S c \<inter> subtree parent S c' \<noteq> {}"
  then obtain d where d: "d \<in> subtree parent S c" "d \<in> subtree parent S c'" by blast
  then have dc: "d = c \<or> ancestor parent (hd S) c d"
    and dc': "d = c' \<or> ancestor parent (hd S) c' d"
    by (simp_all add: subtree_def)
  have "ancestor parent (hd S) c c' \<or> ancestor parent (hd S) c' c"
    using dc dc' c(4) ancestor_linear[of parent "hd S" c d c'] by blast
  then show False
    using siblings_unrelated[OF t c(1,2,3)] siblings_unrelated[OF t c(2,1) c(3)[symmetric]]
    by blast
qed

lemma subtree_size:
  assumes t: "tree_order P parent S" and x: "x \<in> set S"
  shows "real (card (subtree parent S x)) =
           1 + sum_list (map (\<lambda>c. real (card (subtree parent S c)))
                 (filter (\<lambda>c. parent ! nat c = x) (tl S)))"
proof -
  let ?C = "{c \<in> set (tl S). parent ! nat c = x}"
  let ?T = "subtree parent S"
  have fin: "\<And>c. finite (?T c)" by (simp add: subtree_def)
  have dS: "distinct (tl S)" using t by (cases S) (auto simp: tree_order_def)
  have x_notin: "x \<notin> (\<Union>c \<in> ?C. ?T c)"
  proof
    assume "x \<in> (\<Union>c \<in> ?C. ?T c)"
    then obtain c where c: "c \<in> set (tl S)" "parent ! nat c = x" "x \<in> ?T c" by blast
    have "pos S (parent ! nat c) < pos S x" by (rule subtree_not_above[OF t c(1,3)])
    then show False using c(2) by simp
  qed
  have disj: "\<forall>c \<in> ?C. \<forall>c' \<in> ?C. c \<noteq> c' \<longrightarrow> ?T c \<inter> ?T c' = {}"
    using subtree_disjoint[OF t] by simp
  have "card (?T x) = card (insert x (\<Union>c \<in> ?C. ?T c))"
    using subtree_children[OF t x] by simp
  also have "\<dots> = Suc (card (\<Union>c \<in> ?C. ?T c))"
    using x_notin fin by (simp add: card_insert_disjoint)
  also have "card (\<Union>c \<in> ?C. ?T c) = (\<Sum>c \<in> ?C. card (?T c))"
    by (rule card_UN_disjoint) (use fin disj in auto)
  finally have "real (card (?T x)) = 1 + (\<Sum>c \<in> ?C. real (card (?T c)))"
    by simp
  moreover have "sum_list (map (\<lambda>c. real (card (?T c))) (filter (\<lambda>c. parent ! nat c = x) (tl S)))
      = (\<Sum>c \<in> ?C. real (card (?T c)))"
    using dS by (simp add: sum_list_distinct_conv_sum_set)
  ultimately show ?thesis by simp
qed

lemma parents_first_split:
  "parents_first parent seen (A @ c # B) \<Longrightarrow> parent ! nat c \<in> set seen \<union> set A"
proof (induction A arbitrary: seen)
  case Nil
  then show ?case by simp
next
  case (Cons a A)
  then have "parents_first parent (seen @ [a]) (A @ c # B)" by simp
  then have "parent ! nat c \<in> set (seen @ [a]) \<union> set A" by (rule Cons.IH)
  then show ?case by auto
qed

lemma no_child_before:
  assumes t: "tree_order P parent S" and S: "S = r # pre @ p # post"
  shows "filter (\<lambda>c. parent ! nat c = p) (pre @ [p]) = []"
proof -
  have pf: "parents_first parent [r] (pre @ p # post)" and d: "distinct (r # pre @ p # post)"
    using t S by (simp_all add: tree_order_def)
  have "parent ! nat c \<noteq> p" if c: "c \<in> set (pre @ [p])" for c
  proof (cases "c = p")
    case True
    have "parent ! nat p \<in> set [r] \<union> set pre" using parents_first_split[OF pf] .
    then show ?thesis using d True by auto
  next
    case False
    then have "c \<in> set pre" using c by simp
    then obtain A B where AB: "pre = A @ c # B" by (meson split_list)
    have "parents_first parent [r] (A @ c # (B @ p # post))" using pf AB by simp
    then have "parent ! nat c \<in> set [r] \<union> set A" by (rule parents_first_split)
    then show ?thesis using d AB by auto
  qed
  then show ?thesis by (simp add: filter_empty_conv)
qed

lemma efold_append:
  "efold f (xs @ ys) s = (case efold f xs s of Inl e \<Rightarrow> Inl e | Inr s' \<Rightarrow> efold f ys s')"
  by (induction xs arbitrary: s) (auto split: sum.splits)

lemma area_step_in:
  assumes "p \<noteq> r" "0 \<le> p" "p < int P" "0 \<le> parent ! nat p" "parent ! nat p < int P"
    "length parent = P" "length area = P"
  shows "area_step parent r area p =
           Inr (area[nat (parent ! nat p) := area ! nat (parent ! nat p) + area ! nat p])"
  using assms by (simp add: area_step_def getitem_in setitem_in)

lemma area_loop:
  assumes t: "tree_order P parent S" and S: "S = r # pre @ post"
    and la: "length area = P"
    and inv: "\<forall>x \<in> set S. area ! nat x =
        1 + sum_list (map (\<lambda>c. real (card (subtree parent S c)))
              (filter (\<lambda>c. parent ! nat c = x) post))"
  shows "\<exists>A. efold (area_step parent r) (rev pre) area = Inr A \<and> length A = P \<and>
      (\<forall>x \<in> set S. A ! nat x =
        1 + sum_list (map (\<lambda>c. real (card (subtree parent S c)))
              (filter (\<lambda>c. parent ! nat c = x) (pre @ post)))) \<and>
      (\<forall>i. int i \<notin> set S \<longrightarrow> A ! i = area ! i)"
  using S la inv
proof (induction pre arbitrary: post area rule: rev_induct)
  case Nil
  then show ?case by simp
next
  case (snoc p pre)
  let ?sz = "\<lambda>c. real (card (subtree parent S c))"
  let ?q = "parent ! nat p"
  let ?area1 = "area[nat ?q := area ! nat ?q + area ! nat p]"
  have S': "S = r # pre @ p # post" using snoc.prems(1) by simp
  have lp: "length parent = P" using t by (simp add: tree_order_def)
  have d: "distinct S" using t by (simp add: tree_order_def)
  have pS: "p \<in> set S" "p \<in> set (tl S)" using S' by simp_all
  have pr: "p \<noteq> r" "p \<notin> set post" using d S' by auto
  have p_rng: "0 \<le> p" "p < int P" using tree_order_range[OF t pS(1)] by simp_all
  have qS: "?q \<in> set S" using tree_order_parent_in(1)[OF t pS(2)] .
  have q_rng: "0 \<le> ?q" "?q < int P" using tree_order_range[OF t qS] by simp_all
  have step: "area_step parent r area p = Inr ?area1"
    by (rule area_step_in[OF pr(1) p_rng q_rng lp snoc.prems(2)])
  have "filter (\<lambda>c. parent ! nat c = p) (pre @ [p]) = []"
    by (rule no_child_before[OF t S'])
  then have "filter (\<lambda>c. parent ! nat c = p) (pre @ p # post) =
      filter (\<lambda>c. parent ! nat c = p) post"
    by (simp split: if_splits)
  then have "filter (\<lambda>c. parent ! nat c = p) (tl S) = filter (\<lambda>c. parent ! nat c = p) post"
    using S' by simp
  then have "?sz p = 1 + sum_list (map ?sz (filter (\<lambda>c. parent ! nat c = p) post))"
    using subtree_size[OF t pS(1)] by simp
  then have area_p: "area ! nat p = ?sz p" using snoc.prems(3) pS(1) by simp
  have inv1: "\<forall>x \<in> set S. ?area1 ! nat x =
        1 + sum_list (map ?sz (filter (\<lambda>c. parent ! nat c = x) (p # post)))"
  proof
    fix x assume x: "x \<in> set S"
    have x_rng: "0 \<le> x" "x < int P" using tree_order_range[OF t x] by simp_all
    show "?area1 ! nat x = 1 + sum_list (map ?sz (filter (\<lambda>c. parent ! nat c = x) (p # post)))"
    proof (cases "x = ?q")
      case True
      then have "?area1 ! nat x = area ! nat ?q + area ! nat p"
        using q_rng snoc.prems(2) by simp
      then show ?thesis using True area_p bspec[OF snoc.prems(3) qS] by simp
    next
      case False
      then have "nat x \<noteq> nat ?q" using x_rng q_rng by simp
      then have "?area1 ! nat x = area ! nat x" by simp
      then show ?thesis using False bspec[OF snoc.prems(3) x] by simp
    qed
  qed
  have "\<exists>A. efold (area_step parent r) (rev pre) ?area1 = Inr A \<and> length A = P \<and>
      (\<forall>x \<in> set S. A ! nat x =
        1 + sum_list (map ?sz (filter (\<lambda>c. parent ! nat c = x) (pre @ p # post)))) \<and>
      (\<forall>i. int i \<notin> set S \<longrightarrow> A ! i = ?area1 ! i)"
    by (rule snoc.IH[OF S' _ inv1]) (simp add: snoc.prems(2))
  then obtain A where A: "efold (area_step parent r) (rev pre) ?area1 = Inr A" "length A = P"
      "\<forall>x \<in> set S. A ! nat x =
        1 + sum_list (map ?sz (filter (\<lambda>c. parent ! nat c = x) (pre @ p # post)))"
      "\<forall>i. int i \<notin> set S \<longrightarrow> A ! i = ?area1 ! i"
    by blast
  have run: "efold (area_step parent r) (rev (pre @ [p])) area = Inr A"
    using step A(1) by simp
  have frame: "\<forall>i. int i \<notin> set S \<longrightarrow> A ! i = area ! i"
  proof (intro allI impI)
    fix i assume i: "int i \<notin> set S"
    then have "i \<noteq> nat ?q" using qS q_rng by auto
    then show "A ! i = area ! i" using A(4) i by simp
  qed
  show ?case using run A(2,3) frame by simp
qed

lemma subtree_root:
  assumes t: "tree_order P parent S"
  shows "subtree parent S (hd S) = set S"
proof -
  have "\<forall>d \<in> set S. d = hd S \<or> ancestor parent (hd S) (hd S) d"
  proof (rule tree_order_induct[OF t])
    show "hd S = hd S \<or> ancestor parent (hd S) (hd S) (hd S)" by simp
  next
    fix p assume p: "p \<in> set (tl S)"
      and ih: "parent ! nat p = hd S \<or> ancestor parent (hd S) (hd S) (parent ! nat p)"
    have ne: "p \<noteq> hd S" using tree_order_parent_in(2)[OF t p] .
    have "ancestor parent (hd S) (hd S) p"
      using ih ne ancestor.parent[of p "hd S" parent] ancestor.above[of p "hd S" parent "hd S"]
      by auto
    then show "p = hd S \<or> ancestor parent (hd S) (hd S) p" by simp
  qed
  then show ?thesis by (auto simp: subtree_def)
qed

lemma compute_area_post:
  assumes t: "tree_order P parent S" and li: "length img = P"
  shows "\<exists>A. compute_area img parent S = Inr A \<and> length A = P \<and>
      (\<forall>x \<in> set S. A ! nat x = real (card (subtree parent S x))) \<and>
      (\<forall>i. int i \<notin> set S \<longrightarrow> i < P \<longrightarrow> A ! i = 1)"
proof -
  from t obtain r ps where S: "S = r # ps" by (rule tree_order_cons)
  let ?sz = "\<lambda>c. real (card (subtree parent S c))"
  have "\<exists>A. efold (area_step parent r) (rev ps) (replicate P 1) = Inr A \<and> length A = P \<and>
      (\<forall>x \<in> set S. A ! nat x =
        1 + sum_list (map ?sz (filter (\<lambda>c. parent ! nat c = x) (ps @ [])))) \<and>
      (\<forall>i. int i \<notin> set S \<longrightarrow> A ! i = replicate P 1 ! i)"
  proof (rule area_loop[OF t])
    show "S = r # ps @ []" using S by simp
    show "length (replicate P (1::real)) = P" by simp
    show "\<forall>x\<in>set S. replicate P (1::real) ! nat x =
         1 + sum_list (map ?sz (filter (\<lambda>c. parent ! nat c = x) []))"
    proof
      fix x assume "x \<in> set S"
      then have "nat x < P" using tree_order_range[OF t, of x] by auto
      then show "replicate P (1::real) ! nat x =
         1 + sum_list (map ?sz (filter (\<lambda>c. parent ! nat c = x) []))" by simp
    qed
  qed
  then obtain A where A: "efold (area_step parent r) (rev ps) (replicate P 1) = Inr A"
      "length A = P"
      "\<forall>x \<in> set S. A ! nat x = 1 + sum_list (map ?sz (filter (\<lambda>c. parent ! nat c = x) ps))"
      "\<forall>i. int i \<notin> set S \<longrightarrow> A ! i = replicate P 1 ! i"
    by auto
  have run: "compute_area img parent S = Inr A"
    using S A(1) li
    by (simp add: compute_area_def getitem_def efold_append area_step_def)
  have sz: "\<forall>x \<in> set S. A ! nat x = ?sz x"
    using A(3) subtree_size[OF t] S by simp
  show ?thesis using run A(2) sz A(4) by auto
qed

lemma permutation_length:
  assumes "tree_order P parent S" "set S = {0..<int P}"
  shows "length S = P"
proof -
  have "distinct S" using assms(1) by (simp add: tree_order_def)
  then have "length S = card (set S)" by (simp add: distinct_card)
  then show ?thesis using assms(2) by simp
qed

lemma area_bounds:
  assumes t: "tree_order P parent S" and x: "x \<in> set S"
  shows "1 \<le> real (card (subtree parent S x))"
    "real (card (subtree parent S x)) \<le> real (card (subtree parent S (hd S)))"
proof -
  have "x \<in> subtree parent S x" using x by (simp add: subtree_def)
  moreover have "finite (subtree parent S x)" by (simp add: subtree_def)
  ultimately have "card (subtree parent S x) \<noteq> 0" by auto
  then show "1 \<le> real (card (subtree parent S x))" by simp
  have "subtree parent S x \<subseteq> set S" by (auto simp: subtree_def)
  then have "card (subtree parent S x) \<le> card (set S)" by (simp add: card_mono)
  then show "real (card (subtree parent S x)) \<le> real (card (subtree parent S (hd S)))"
    using subtree_root[OF t] by simp
qed

lemma all_pixels_eq:
  assumes "set S = {0..<int P}" "length xs = P" "length ys = P"
    and "\<forall>p \<in> set S. xs ! nat p = ys ! nat p"
  shows "xs = ys"
proof (rule nth_equalityI)
  show "length xs = length ys" using assms(2,3) by simp
next
  fix i assume "i < length xs"
  then have "int i \<in> set S" using assms(1,2) by simp
  then have "xs ! nat (int i) = ys ! nat (int i)" using assms(4) by blast
  then show "xs ! i = ys ! i" by simp
qed

text \<open>
  C4. On a tree in pixel order over all \<open>P\<close> pixels, \<^verbatim>\<open>_compute_area\<close> returns
  normally an array \<open>A\<close> of \<open>P\<close> values in which every pixel holds \<open>1\<close> plus the sum of
  the values of its children (the accumulation \<^verbatim>\<open>A[parent[p]] += A[p]\<close> over the
  reversed order), which is the number of pixels of the subtree rooted at it; the root
  \<^verbatim>\<open>sorted_indices[0]\<close> holds \<open>P\<close>. (The sums are exact here; those of the source are
  as long as \<open>P \<le> 2^53\<close>.)
\<close>

theorem compute_area_subtree:
  assumes "tree_order P parent sorted_indices"
    and "set sorted_indices = {0..<int P}"
    and "length img = P"
  shows "\<exists>A. compute_area img parent sorted_indices = Inr A \<and> length A = P \<and>
      (\<forall>p \<in> set sorted_indices.
         A ! nat p = 1 + sum_list (map (\<lambda>c. A ! nat c)
                           (filter (\<lambda>c. parent ! nat c = p) (tl sorted_indices)))) \<and>
      (\<forall>p \<in> set sorted_indices.
         A ! nat p = real (card (subtree parent sorted_indices p))) \<and>
      A ! nat (hd sorted_indices) = real P"
proof -
  let ?S = sorted_indices
  from compute_area_post[OF assms(1,3)] obtain A where
    A: "compute_area img parent ?S = Inr A" "length A = P"
      "\<forall>x \<in> set ?S. A ! nat x = real (card (subtree parent ?S x))"
    by blast
  have acc: "\<forall>p \<in> set ?S.
         A ! nat p = 1 + sum_list (map (\<lambda>c. A ! nat c)
                           (filter (\<lambda>c. parent ! nat c = p) (tl ?S)))"
  proof
    fix p assume p: "p \<in> set ?S"
    have "map (\<lambda>c. A ! nat c) (filter (\<lambda>c. parent ! nat c = p) (tl ?S)) =
          map (\<lambda>c. real (card (subtree parent ?S c))) (filter (\<lambda>c. parent ! nat c = p) (tl ?S))"
    proof (rule map_cong[OF refl])
      fix c assume "c \<in> set (filter (\<lambda>c. parent ! nat c = p) (tl ?S))"
      then have "c \<in> set (tl ?S)" by simp
      then have "c \<in> set ?S" by (rule tree_order_parent_in(3)[OF assms(1)])
      then show "A ! nat c = real (card (subtree parent ?S c))" using A(3) by simp
    qed
    then have "sum_list (map (\<lambda>c. A ! nat c) (filter (\<lambda>c. parent ! nat c = p) (tl ?S))) =
          sum_list (map (\<lambda>c. real (card (subtree parent ?S c)))
            (filter (\<lambda>c. parent ! nat c = p) (tl ?S)))"
      by (rule arg_cong)
    then show "A ! nat p = 1 + sum_list (map (\<lambda>c. A ! nat c)
                           (filter (\<lambda>c. parent ! nat c = p) (tl ?S)))"
      using subtree_size[OF assms(1) p] bspec[OF A(3) p] by simp
  qed
  have "distinct ?S" using assms(1) by (simp add: tree_order_def)
  then have "card (subtree parent ?S (hd ?S)) = length ?S"
    using subtree_root[OF assms(1)] by (simp add: distinct_card)
  then have "A ! nat (hd ?S) = real P"
    using A(3) tree_order_hd(4)[OF assms(1)] permutation_length[OF assms(1,2)] by simp
  then show ?thesis using A acc by blast
qed

theorem compute_area_subtree_witness:
  "tree_order 4 [0, 0, 1, 1] [0, 1, 2, 3] \<and>
   compute_area [1, 2, 3, 3 :: int] [0, 0, 1, 1] [0, 1, 2, 3] = Inr [4, 3, 1, 1] \<and>
   (\<exists>A. compute_area [1, 2, 3, 3 :: int] [0, 0, 1, 1] [0, 1, 2, 3] = Inr A \<and> length A = 4 \<and>
      A ! 0 = 4 \<and> A ! 1 = 1 + (A ! 2 + A ! 3))"
proof -
  have t: "tree_order 4 [0, 0, 1, 1] [0, 1, 2, 3]"
    by (simp add: tree_order_def)
  have s: "set [0, 1, 2, 3] = {0..<int 4}" by auto
  have run: "compute_area [1, 2, 3, 3 :: int] [0, 0, 1, 1] [0, 1, 2, 3] = Inr [4, 3, 1, 1]"
    by (simp add: compute_area_def area_step_def getitem_def setitem_def)
  from compute_area_subtree[OF t s, of "[1, 2, 3, 3 :: int]"]
  show ?thesis using t run by simp
qed

text \<open>
  C5. On a tree in pixel order over all \<open>P\<close> pixels, with the area computed by
  \<^verbatim>\<open>_compute_area\<close> as the attribute and the threshold \<open>0\<close>, both filters return the
  input.
\<close>

theorem threshold_zero_identity:
  assumes "tree_order P parent sorted_indices"
    and "set sorted_indices = {0..<int P}"
    and "length img = P" and "length out0 = P" and "length out1 = P"
  shows "\<exists>A. compute_area img parent sorted_indices = Inr A \<and>
      direct_filter img out0 parent sorted_indices A 0 = Inr img \<and>
      cut_first_filter img out1 parent sorted_indices A 0 = Inr img"
proof -
  let ?S = sorted_indices
  from compute_area_post[OF assms(1,3)] obtain A where
    A: "compute_area img parent ?S = Inr A" "length A = P"
      "\<forall>x \<in> set ?S. A ! nat x = real (card (subtree parent ?S x))"
    by blast
  have pos: "\<forall>x \<in> set ?S. \<not> A ! nat x < 0"
    using A(3) area_bounds(1)[OF assms(1)] by simp
  have tl_in: "\<And>p. p \<in> set (tl ?S) \<Longrightarrow> p \<in> set ?S"
    by (rule tree_order_parent_in(3)[OF assms(1)])
  from direct_filter_post[OF assms(1,3,4) A(2), of 0] obtain od where
    d: "direct_filter img out0 parent ?S A 0 = Inr od" "length od = P"
      "od ! nat (hd ?S) = (if A ! nat (hd ?S) < 0 then 0 else img ! nat (hd ?S))"
      "\<forall>p \<in> set (tl ?S). od ! nat p =
         (if img ! nat p = img ! nat (parent ! nat p) then od ! nat (parent ! nat p)
          else if A ! nat p < 0 then od ! nat (parent ! nat p)
          else img ! nat p)"
    by blast
  have "\<forall>p \<in> set ?S. od ! nat p = img ! nat p"
  proof (rule tree_order_induct[OF assms(1)])
    show "od ! nat (hd ?S) = img ! nat (hd ?S)"
      using d(3) pos tree_order_hd(4)[OF assms(1)] by simp
  next
    fix p assume p: "p \<in> set (tl ?S)"
      and ih: "od ! nat (parent ! nat p) = img ! nat (parent ! nat p)"
    show "od ! nat p = img ! nat p"
      using bspec[OF d(4) p] ih bspec[OF pos tl_in[OF p]] by (simp split: if_splits)
  qed
  then have od: "od = img" by (rule all_pixels_eq[OF assms(2) d(2) assms(3)])
  from cut_first_filter_post[OF assms(1,3,5) A(2), of 0] obtain oc where
    c: "cut_first_filter img out1 parent ?S A 0 = Inr oc" "length oc = P"
      "oc ! nat (hd ?S) = (if A ! nat (hd ?S) < 0 then 0 else img ! nat (hd ?S))"
      "\<forall>p \<in> set (tl ?S). oc ! nat p =
         (if img ! nat p = img ! nat (parent ! nat p) then oc ! nat (parent ! nat p)
          else if A ! nat p < 0 \<or> oc ! nat (parent ! nat p) < img ! nat (parent ! nat p)
          then oc ! nat (parent ! nat p)
          else img ! nat p)"
    by blast
  have "\<forall>p \<in> set ?S. oc ! nat p = img ! nat p"
  proof (rule tree_order_induct[OF assms(1)])
    show "oc ! nat (hd ?S) = img ! nat (hd ?S)"
      using c(3) pos tree_order_hd(4)[OF assms(1)] by simp
  next
    fix p assume p: "p \<in> set (tl ?S)"
      and ih: "oc ! nat (parent ! nat p) = img ! nat (parent ! nat p)"
    show "oc ! nat p = img ! nat p"
      using bspec[OF c(4) p] ih bspec[OF pos tl_in[OF p]] by (simp split: if_splits)
  qed
  then have oc: "oc = img" by (rule all_pixels_eq[OF assms(2) c(2) assms(3)])
  show ?thesis using A(1) d(1) od c(1) oc by blast
qed

theorem threshold_zero_identity_witness:
  "tree_order 4 [0, 0, 1, 1] [0, 1, 2, 3] \<and>
   compute_area [1, 2, 3, 3 :: int] [0, 0, 1, 1] [0, 1, 2, 3] = Inr [4, 3, 1, 1] \<and>
   (\<exists>A. compute_area [1, 2, 3, 3 :: int] [0, 0, 1, 1] [0, 1, 2, 3] = Inr A \<and>
      direct_filter [1, 2, 3, 3 :: int] [9, 9, 9, 9] [0, 0, 1, 1] [0, 1, 2, 3] A 0
        = Inr [1, 2, 3, 3] \<and>
      cut_first_filter [1, 2, 3, 3 :: int] [7, 7, 7, 7] [0, 0, 1, 1] [0, 1, 2, 3] A 0
        = Inr [1, 2, 3, 3])"
proof -
  have t: "tree_order 4 [0, 0, 1, 1] [0, 1, 2, 3]"
    by (simp add: tree_order_def)
  have s: "set [0, 1, 2, 3] = {0..<int 4}" by auto
  have run: "compute_area [1, 2, 3, 3 :: int] [0, 0, 1, 1] [0, 1, 2, 3] = Inr [4, 3, 1, 1]"
    by (simp add: compute_area_def area_step_def getitem_def setitem_def)
  from threshold_zero_identity[OF t s, of "[1, 2, 3, 3 :: int]" "[9, 9, 9, 9]" "[7, 7, 7, 7]"]
  show ?thesis using t run by simp
qed

text \<open>
  C6. On a tree in pixel order over all \<open>P\<close> pixels, with the area computed by
  \<^verbatim>\<open>_compute_area\<close> as the attribute and a threshold above the area of the root, both
  filters return the all-zero array.
\<close>

theorem threshold_above_root_zero:
  assumes "tree_order P parent sorted_indices"
    and "set sorted_indices = {0..<int P}"
    and "length img = P" and "length out0 = P" and "length out1 = P"
  shows "\<exists>A. compute_area img parent sorted_indices = Inr A \<and>
      (\<forall>threshold. A ! nat (hd sorted_indices) < threshold \<longrightarrow>
         direct_filter img out0 parent sorted_indices A threshold = Inr (replicate P 0) \<and>
         cut_first_filter img out1 parent sorted_indices A threshold = Inr (replicate P 0))"
proof -
  let ?S = sorted_indices
  from compute_area_post[OF assms(1,3)] obtain A where
    A: "compute_area img parent ?S = Inr A" "length A = P"
      "\<forall>x \<in> set ?S. A ! nat x = real (card (subtree parent ?S x))"
    by blast
  have tl_in: "\<And>p. p \<in> set (tl ?S) \<Longrightarrow> p \<in> set ?S"
    by (rule tree_order_parent_in(3)[OF assms(1)])
  have le_root: "\<forall>x \<in> set ?S. A ! nat x \<le> A ! nat (hd ?S)"
    using A(3) area_bounds(2)[OF assms(1)] tree_order_hd(4)[OF assms(1)] by simp
  have "direct_filter img out0 parent ?S A threshold = Inr (replicate P 0) \<and>
        cut_first_filter img out1 parent ?S A threshold = Inr (replicate P 0)"
    if thr: "A ! nat (hd ?S) < threshold" for threshold
  proof -
    have below: "\<forall>x \<in> set ?S. A ! nat x < threshold" using le_root thr by fastforce
    have zero: "\<forall>p \<in> set ?S. replicate P (0::'a) ! nat p = 0"
    proof
      fix p assume "p \<in> set ?S"
      then have "nat p < P" using tree_order_range[OF assms(1), of p] by auto
      then show "replicate P (0::'a) ! nat p = 0" by simp
    qed
    from direct_filter_post[OF assms(1,3,4) A(2), of threshold] obtain od where
      d: "direct_filter img out0 parent ?S A threshold = Inr od" "length od = P"
        "od ! nat (hd ?S) = (if A ! nat (hd ?S) < threshold then 0 else img ! nat (hd ?S))"
        "\<forall>p \<in> set (tl ?S). od ! nat p =
           (if img ! nat p = img ! nat (parent ! nat p) then od ! nat (parent ! nat p)
            else if A ! nat p < threshold then od ! nat (parent ! nat p)
            else img ! nat p)"
      by blast
    have "\<forall>p \<in> set ?S. od ! nat p = 0"
    proof (rule tree_order_induct[OF assms(1)])
      show "od ! nat (hd ?S) = 0" using d(3) thr by simp
    next
      fix p assume p: "p \<in> set (tl ?S)" and ih: "od ! nat (parent ! nat p) = 0"
      show "od ! nat p = 0"
        using bspec[OF d(4) p] ih bspec[OF below tl_in[OF p]] by (simp split: if_splits)
    qed
    then have "\<forall>p \<in> set ?S. od ! nat p = replicate P 0 ! nat p" using zero by simp
    then have od: "od = replicate P 0" by (intro all_pixels_eq[OF assms(2) d(2)]) simp_all
    from cut_first_filter_post[OF assms(1,3,5) A(2), of threshold] obtain oc where
      c: "cut_first_filter img out1 parent ?S A threshold = Inr oc" "length oc = P"
        "oc ! nat (hd ?S) = (if A ! nat (hd ?S) < threshold then 0 else img ! nat (hd ?S))"
        "\<forall>p \<in> set (tl ?S). oc ! nat p =
           (if img ! nat p = img ! nat (parent ! nat p) then oc ! nat (parent ! nat p)
            else if A ! nat p < threshold \<or> oc ! nat (parent ! nat p) < img ! nat (parent ! nat p)
            then oc ! nat (parent ! nat p)
            else img ! nat p)"
      by blast
    have "\<forall>p \<in> set ?S. oc ! nat p = 0"
    proof (rule tree_order_induct[OF assms(1)])
      show "oc ! nat (hd ?S) = 0" using c(3) thr by simp
    next
      fix p assume p: "p \<in> set (tl ?S)" and ih: "oc ! nat (parent ! nat p) = 0"
      show "oc ! nat p = 0"
        using bspec[OF c(4) p] ih bspec[OF below tl_in[OF p]] by (simp split: if_splits)
    qed
    then have "\<forall>p \<in> set ?S. oc ! nat p = replicate P 0 ! nat p" using zero by simp
    then have oc: "oc = replicate P 0" by (intro all_pixels_eq[OF assms(2) c(2)]) simp_all
    show ?thesis using d(1) od c(1) oc by simp
  qed
  then show ?thesis using A(1) by blast
qed

theorem threshold_above_root_zero_witness:
  "tree_order 4 [0, 0, 1, 1] [0, 1, 2, 3] \<and>
   compute_area [1, 2, 3, 3 :: int] [0, 0, 1, 1] [0, 1, 2, 3] = Inr [4, 3, 1, 1] \<and>
   direct_filter [1, 2, 3, 3 :: int] [9, 9, 9, 9] [0, 0, 1, 1] [0, 1, 2, 3] [4, 3, 1, 1] 5
     = Inr [0, 0, 0, 0] \<and>
   cut_first_filter [1, 2, 3, 3 :: int] [7, 7, 7, 7] [0, 0, 1, 1] [0, 1, 2, 3] [4, 3, 1, 1] 5
     = Inr [0, 0, 0, 0]"
proof -
  have t: "tree_order 4 [0, 0, 1, 1] [0, 1, 2, 3]"
    by (simp add: tree_order_def)
  have s: "set [0, 1, 2, 3] = {0..<int 4}" by auto
  have run: "compute_area [1, 2, 3, 3 :: int] [0, 0, 1, 1] [0, 1, 2, 3] = Inr [4, 3, 1, 1]"
    by (simp add: compute_area_def area_step_def getitem_def setitem_def)
  from threshold_above_root_zero[OF t s, of "[1, 2, 3, 3 :: int]" "[9, 9, 9, 9]" "[7, 7, 7, 7]"]
  have "\<forall>threshold. [4, 3, 1, 1] ! nat (hd [0, 1, 2, 3]) < threshold \<longrightarrow>
         direct_filter [1, 2, 3, 3 :: int] [9, 9, 9, 9] [0, 0, 1, 1] [0, 1, 2, 3] [4, 3, 1, 1] threshold
           = Inr (replicate 4 0) \<and>
         cut_first_filter [1, 2, 3, 3 :: int] [7, 7, 7, 7] [0, 0, 1, 1] [0, 1, 2, 3] [4, 3, 1, 1] threshold
           = Inr (replicate 4 0)"
    using run by simp
  then have "direct_filter [1, 2, 3, 3 :: int] [9, 9, 9, 9] [0, 0, 1, 1] [0, 1, 2, 3] [4, 3, 1, 1] 5
           = Inr (replicate 4 0) \<and>
         cut_first_filter [1, 2, 3, 3 :: int] [7, 7, 7, 7] [0, 0, 1, 1] [0, 1, 2, 3] [4, 3, 1, 1] 5
           = Inr (replicate 4 0)"
    by simp
  then show ?thesis using t run by (simp add: numeral_eq_Suc)
qed

section \<open>Claims about the neighbourhood\<close>

lemma emap_all:
  assumes "\<forall>x \<in> set xs. f x = Inr (g x)"
  shows "emap f xs = Inr (map g xs)"
  using assms by (induction xs) simp_all

lemma emap_fail:
  assumes "\<exists>x \<in> set xs. f x = Inl e" "\<forall>x \<in> set xs. f x = Inl e \<or> (\<exists>y. f x = Inr y)"
  shows "emap f xs = Inl e"
  using assms
proof (induction xs)
  case Nil
  then show ?case by simp
next
  case (Cons x xs)
  show ?case
  proof (cases "f x")
    case (Inl e')
    then show ?thesis using Cons.prems(2) by auto
  next
    case (Inr y)
    then have "\<exists>x \<in> set xs. f x = Inl e" using Cons.prems(1) by auto
    then have "emap f xs = Inl e" using Cons.IH Cons.prems(2) by simp
    then show ?thesis using Inr by simp
  qed
qed

lemma offsets_to_points_eq:
  "offsets_to_points offsets shape =
     (let neg_shift = - signed_min (hd offsets) (tl offsets);
          P = int (prod_list shape)
      in if offsets = [] \<or> sint neg_shift < 0 \<or> P \<le> sint neg_shift \<or>
            (\<exists>off \<in> set offsets. sint (off + neg_shift) < 0 \<or> P \<le> sint (off + neg_shift))
         then Inl ValueError
         else Inr (map (\<lambda>off. map2 (\<lambda>c d. c - d)
                            (unravel (nat (sint (off + neg_shift))) shape)
                            (unravel (nat (sint neg_shift)) shape))
                     offsets))"
proof (cases offsets)
  case Nil
  then show ?thesis by (simp add: offsets_to_points_def)
next
  case (Cons x xs)
  let ?n = "- signed_min x xs"
  let ?P = "int (prod_list shape)"
  let ?f = "\<lambda>center offset.
                 ebind (unravel_index (sint (offset + ?n)) shape) (\<lambda>current_point.
                   Inr (map2 (\<lambda>c d. c - d) current_point center))"
  show ?thesis
  proof (cases "sint ?n < 0 \<or> ?P \<le> sint ?n")
    case True
    then show ?thesis using Cons
      by (auto simp add: offsets_to_points_def unravel_index_def Let_def)
  next
    case False
    then have c: "unravel_index (sint ?n) shape = Inr (unravel (nat (sint ?n)) shape)"
      by (simp add: unravel_index_def)
    let ?c = "unravel (nat (sint ?n)) shape"
    have run: "offsets_to_points offsets shape = emap (?f ?c) offsets"
      using Cons c by (simp add: offsets_to_points_def Let_def)
    show ?thesis
    proof (cases "\<exists>off \<in> set offsets. sint (off + ?n) < 0 \<or> ?P \<le> sint (off + ?n)")
      case True
      have "emap (?f ?c) offsets = Inl ValueError"
      proof (rule emap_fail)
        show "\<exists>x\<in>set offsets. ?f ?c x = Inl ValueError"
          using True by (auto simp: unravel_index_def)
        show "\<forall>x\<in>set offsets. ?f ?c x = Inl ValueError \<or> (\<exists>y. ?f ?c x = Inr y)"
          by (simp add: unravel_index_def)
      qed
      then show ?thesis using run True Cons by (simp add: Let_def)
    next
      case no: False
      have "emap (?f ?c) offsets =
          Inr (map (\<lambda>off. map2 (\<lambda>c d. c - d) (unravel (nat (sint (off + ?n))) shape) ?c) offsets)"
        by (rule emap_all) (use no in \<open>auto simp: unravel_index_def\<close>)
      then show ?thesis using run no False Cons by (simp add: Let_def)
    qed
  qed
qed

text \<open>
  C8, as the code has it. With \<open>neg_shift = - min(offsets)\<close> in 32-bit arithmetic and
  \<open>P\<close> the product of \<open>shape\<close>, \<^verbatim>\<open>offsets_to_points\<close> raises \<^verbatim>\<open>ValueError\<close> when
  \<open>offsets\<close> is empty, when \<open>neg_shift\<close> itself is outside \<open>[0, P)\<close>, or when some
  \<open>o + neg_shift\<close> is; otherwise it returns, for each offset, the coordinates of
  \<open>o + neg_shift\<close> minus those of \<open>neg_shift\<close>.
\<close>

theorem offsets_to_points_result:
  "offsets_to_points offsets shape =
     (let neg_shift = - signed_min (hd offsets) (tl offsets);
          P = int (prod_list shape)
      in if offsets = [] \<or> sint neg_shift < 0 \<or> P \<le> sint neg_shift \<or>
            (\<exists>off \<in> set offsets. sint (off + neg_shift) < 0 \<or> P \<le> sint (off + neg_shift))
         then Inl ValueError
         else Inr (map (\<lambda>off. map2 (\<lambda>c d. c - d)
                            (unravel (nat (sint (off + neg_shift))) shape)
                            (unravel (nat (sint neg_shift)) shape))
                     offsets))"
  by (rule offsets_to_points_eq)

theorem offsets_to_points_result_witness:
  "offsets_to_points [- 3, 3, - 1, 1] [3, 3] = Inr [[- 1, 0], [1, 0], [- 1, 2], [0, 1]]"
proof -
  have "signed_min (- 3) [3, - 1, 1] = - 3"
    by (simp add: signed_min_def)
  then show ?thesis
    using offsets_to_points_result[of "[- 3, 3, - 1, 1]" "[3, 3]"]
    by (simp add: unravel_def)
qed

theorem offsets_to_points_counterexample:
  "offsets_to_points [1, 2] [3] = Inl ValueError \<and>
   \<not> (\<exists>off \<in> set [1, 2 :: 32 word].
         sint (off + - signed_min 1 [2]) < 0 \<or> int (prod_list [3]) \<le> sint (off + - signed_min 1 [2]))"
proof -
  have "signed_min 1 [2] = 1"
    by (simp add: signed_min_def)
  then show ?thesis
    by (simp add: offsets_to_points_def unravel_index_def)
qed

section \<open>Coordinates\<close>

lemma length_unravel_rev [simp]: "length (unravel_rev i ns) = length ns"
  by (induction ns arbitrary: i) simp_all

lemma length_unravel [simp]: "length (unravel i shape) = length shape"
  by (simp add: unravel_def)

lemma ravel_unravel_rev:
  "i < prod_list ns \<Longrightarrow> ravel_rev (map int (unravel_rev i ns)) ns = int i"
proof (induction ns arbitrary: i)
  case Nil
  then show ?case by simp
next
  case (Cons n ns)
  have n0: "0 < n" using Cons.prems by (cases n) simp_all
  have "i div n < prod_list ns"
    using Cons.prems n0 by (simp add: less_mult_imp_div_less mult.commute)
  then have "ravel_rev (map int (unravel_rev (i div n) ns)) ns = int (i div n)"
    by (rule Cons.IH)
  then have "ravel_rev (map int (unravel_rev i (n # ns))) (n # ns) = int (i mod n) + int n * int (i div n)"
    by simp
  also have "\<dots> = int (i mod n + n * (i div n))"
    by (simp only: of_nat_add of_nat_mult)
  also have "i mod n + n * (i div n) = i" by (rule mod_mult_div_eq)
  finally show ?case .
qed

lemma ravel_rev_bounds:
  "inside cs ns \<Longrightarrow> 0 \<le> ravel_rev cs ns \<and> ravel_rev cs ns < int (prod_list ns)"
  unfolding inside_def
proof (induction cs ns rule: list_all2_induct)
  case Nil
  then show ?case by simp
next
  case (Cons c cs n ns)
  let ?r = "ravel_rev cs ns"
  have r: "0 \<le> ?r" "?r + 1 \<le> int (prod_list ns)" using Cons.IH by simp_all
  have c: "0 \<le> c" "c < int n" using Cons.hyps by simp_all
  have "int n * (?r + 1) \<le> int n * int (prod_list ns)"
    using r(2) by (intro mult_left_mono) simp_all
  then have "c + int n * ?r < int n * int (prod_list ns)"
    using c(2) by (simp add: algebra_simps)
  moreover have "0 \<le> c + int n * ?r" using c(1) r(1) by simp
  ultimately show ?case by simp
qed

lemma ravel_rev_add:
  "length xs = length ns \<Longrightarrow> length ys = length ns \<Longrightarrow>
     ravel_rev (map2 (\<lambda>a b. a + b) xs ys) ns = ravel_rev xs ns + ravel_rev ys ns"
proof (induction ns arbitrary: xs ys)
  case Nil
  then show ?case by simp
next
  case (Cons n ns)
  then obtain x xs' y ys' where xy: "xs = x # xs'" "ys = y # ys'"
    by (metis length_Suc_conv)
  have "ravel_rev (map2 (\<lambda>a b. a + b) xs' ys') ns = ravel_rev xs' ns + ravel_rev ys' ns"
    by (rule Cons.IH) (use Cons.prems xy in simp_all)
  then show ?case using xy by (simp add: distrib_left)
qed

lemma ravel_rev_diff:
  "length xs = length ns \<Longrightarrow> length ys = length ns \<Longrightarrow>
     ravel_rev (map2 (\<lambda>a b. a - b) xs ys) ns = ravel_rev xs ns - ravel_rev ys ns"
proof (induction ns arbitrary: xs ys)
  case Nil
  then show ?case by simp
next
  case (Cons n ns)
  then obtain x xs' y ys' where xy: "xs = x # xs'" "ys = y # ys'"
    by (metis length_Suc_conv)
  have "ravel_rev (map2 (\<lambda>a b. a - b) xs' ys') ns = ravel_rev xs' ns - ravel_rev ys' ns"
    by (rule Cons.IH) (use Cons.prems xy in simp_all)
  then show ?case using xy by (simp add: right_diff_distrib)
qed

lemma rev_map2:
  "length xs = length ys \<Longrightarrow> rev (map2 f xs ys) = map2 f (rev xs) (rev ys)"
  by (simp add: rev_map zip_rev)

lemma ravel_unravel:
  assumes "i < prod_list shape"
  shows "ravel_rev (rev (unravel i shape)) (rev shape) = int i"
  using ravel_unravel_rev[of i "rev shape"] assms by (simp add: unravel_def rev_map)

lemma valid_dims_True:
  "valid_dims pc cs sh js = Inr True \<Longrightarrow>
     \<forall>i \<in> set js. 0 \<le> pc ! i + cs ! i \<and> pc ! i + cs ! i < int (sh ! i)"
proof (induction js)
  case Nil
  then show ?case by simp
next
  case (Cons j js)
  from Cons.prems obtain d where d: "getitem cs (int j) = Inr d"
    by (cases "getitem cs (int j)") simp_all
  then have dj: "d = cs ! j" by (auto simp: getitem_def Let_def split: if_splits)
  from Cons.prems d have ok: "\<not> pc ! j + d < 0" "\<not> int (sh ! j) \<le> pc ! j + d"
    and rest: "valid_dims pc cs sh js = Inr True"
    by (auto simp: Let_def split: if_splits)
  show ?case using ok dj Cons.IH[OF rest] by auto
qed

lemma valid_dims_total:
  "\<forall>i \<in> set js. i < length cs \<Longrightarrow> \<exists>b. valid_dims pc cs sh js = Inr b"
  by (induction js) (auto simp: getitem_def Let_def)

lemma sint_shift_diff:
  fixes off neg :: "32 word"
  assumes "0 \<le> sint (off + neg)" "0 \<le> sint neg"
  shows "sint (off + neg) - sint neg = sint off"
proof -
  have b1: "sint (off + neg) < 2 ^ 31" using sint_lt[of "off + neg"] by simp
  have b2: "sint neg < 2 ^ 31" using sint_lt[of neg] by simp
  have "off = (off + neg) - neg" by simp
  then have "sint off = sint ((off + neg) - neg)" by simp
  also have "\<dots> = signed_take_bit 31 (sint (off + neg) - sint neg)"
    using sint_word_ariths(2)[of "off + neg" neg] by simp
  also have "\<dots> = sint (off + neg) - sint neg"
    using assms b1 b2 by (intro signed_take_bit_int_eq_self) simp_all
  finally show ?thesis by simp
qed

lemma valid_neighbor_in_range:
  assumes p: "0 \<le> p" "p < int (prod_list shape)"
    and a: "a < prod_list shape" and b: "b < prod_list shape"
    and v: "is_valid_coordinate p (map2 (\<lambda>c d. c - d) (unravel a shape) (unravel b shape)) shape
              = Inr True"
  shows "0 \<le> p + (int a - int b) \<and> p + (int a - int b) < int (prod_list shape)"
proof -
  let ?D = "length shape"
  let ?pc = "unravel (nat p) shape"
  let ?delta = "map2 (\<lambda>c d. c - d) (unravel a shape) (unravel b shape)"
  let ?s = "map2 (\<lambda>a b. a + b) ?pc ?delta"
  have np: "nat p < prod_list shape" using p by simp
  have "valid_dims ?pc ?delta shape [0..<?D] = Inr True"
    using v p by (simp add: is_valid_coordinate_def unravel_index_def)
  then have "\<forall>i \<in> set [0..<?D]. 0 \<le> ?pc ! i + ?delta ! i \<and> ?pc ! i + ?delta ! i < int (shape ! i)"
    by (rule valid_dims_True)
  then have "inside ?s shape"
    by (simp add: inside_def list_all2_conv_all_nth)
  then have "inside (rev ?s) (rev shape)"
    by (simp add: inside_def)
  then have bnd: "0 \<le> ravel_rev (rev ?s) (rev shape)"
      "ravel_rev (rev ?s) (rev shape) < int (prod_list (rev shape))"
    using ravel_rev_bounds by blast+
  have "rev ?s = map2 (\<lambda>a b. a + b) (rev ?pc) (rev ?delta)"
    by (rule rev_map2) simp
  moreover have "rev ?delta = map2 (\<lambda>c d. c - d) (rev (unravel a shape)) (rev (unravel b shape))"
    by (rule rev_map2) simp
  ultimately have "ravel_rev (rev ?s) (rev shape) =
      ravel_rev (rev ?pc) (rev shape) +
      (ravel_rev (rev (unravel a shape)) (rev shape) - ravel_rev (rev (unravel b shape)) (rev shape))"
    by (simp add: ravel_rev_add ravel_rev_diff)
  then have "ravel_rev (rev ?s) (rev shape) = p + (int a - int b)"
    using ravel_unravel[OF np] ravel_unravel[OF a] ravel_unravel[OF b] p by simp
  then show ?thesis using bnd by simp
qed

section \<open>Union-find with path compression\<close>

lemma pos_less: "x \<in> set S \<Longrightarrow> pos S x < length S"
  unfolding pos_def by (induction S) auto

lemma nth_pos: "x \<in> set S \<Longrightarrow> S ! pos S x = x"
  unfolding pos_def by (induction S) auto

lemma pos_inj: "x \<in> set S \<Longrightarrow> pos S x = pos S y \<Longrightarrow> y \<in> set S \<Longrightarrow> x = y"
  using nth_pos by metis

lemma pos_prefix_le: "x \<notin> set xs \<Longrightarrow> length xs \<le> pos (xs @ ys) x"
  unfolding pos_def by (induction xs) auto

lemma find_root_total:
  assumes S: "D \<subseteq> set S" "\<forall>x \<in> D. 0 \<le> x \<and> x < int P"
  shows "length zpar = P \<Longrightarrow> uf_inv S zpar D \<Longrightarrow> index \<in> D \<Longrightarrow>
    \<exists>zpar' r. find_root zpar index = Some (Inr (zpar', r)) \<and> length zpar' = P \<and>
       r \<in> D \<and> zpar' ! nat r = r \<and> pos S r \<le> pos S index \<and> uf_inv S zpar' D \<and>
       (\<forall>i. int i \<notin> D \<longrightarrow> zpar' ! i = zpar ! i)"
proof (induction "pos S index" arbitrary: index zpar rule: less_induct)
  case less
  let ?q = "zpar ! nat index"
  have i_rng: "0 \<le> index" "index < int P" using S(2) less.prems(3) by auto
  have q: "?q \<in> D" "pos S ?q \<le> pos S index"
    using less.prems(2,3) by (auto simp: uf_inv_def)
  have get: "getitem zpar index = Inr ?q"
    using i_rng less.prems(1) by (simp add: getitem_in)
  show ?case
  proof (cases "?q = index")
    case True
    have "find_root zpar index = Some (Inr (zpar, index))"
      using get True by (subst find_root.simps) simp
    then show ?thesis using less.prems True by auto
  next
    case False
    have "pos S ?q \<noteq> pos S index"
      using pos_inj[of ?q S index] q(1) less.prems(3) S(1) False by auto
    then have lt: "pos S ?q < pos S index" using q(2) by simp
    from less.hyps[OF lt less.prems(1,2) q(1)] obtain z1 r where
      r: "find_root zpar ?q = Some (Inr (z1, r))" "length z1 = P" "r \<in> D" "z1 ! nat r = r"
        "pos S r \<le> pos S ?q" "uf_inv S z1 D" "\<forall>i. int i \<notin> D \<longrightarrow> z1 ! i = zpar ! i"
      by blast
    let ?z2 = "z1[nat index := r]"
    have r_rng: "0 \<le> r" "r < int P" using S(2) r(3) by auto
    have r_lt: "pos S r < pos S index" using r(5) lt by simp
    then have r_ne: "r \<noteq> index" by auto
    then have nr: "nat r \<noteq> nat index" using r_rng i_rng by simp
    have run: "find_root zpar index = Some (Inr (?z2, r))"
      using get False r(1,2) i_rng
      by (subst find_root.simps) (simp add: setitem_in getitem_in)
    have inv2: "uf_inv S ?z2 D"
      unfolding uf_inv_def
    proof
      fix x assume x: "x \<in> D"
      have x_rng: "0 \<le> x" "x < int P" using S(2) x by auto
      show "?z2 ! nat x \<in> D \<and> pos S (?z2 ! nat x) \<le> pos S x"
      proof (cases "x = index")
        case True
        then show ?thesis using r(2,3) r_lt i_rng by simp
      next
        case False
        then have "nat x \<noteq> nat index" using x_rng i_rng by simp
        then have "?z2 ! nat x = z1 ! nat x" by simp
        then show ?thesis using r(6) x by (simp add: uf_inv_def)
      qed
    qed
    have frame: "\<forall>i. int i \<notin> D \<longrightarrow> ?z2 ! i = zpar ! i"
    proof (intro allI impI)
      fix i assume i: "int i \<notin> D"
      then have "i \<noteq> nat index" using less.prems(3) i_rng by auto
      then show "?z2 ! i = zpar ! i" using r(7) i by simp
    qed
    have "?z2 ! nat r = r" using nr r(4) by simp
    moreover have "pos S r \<le> pos S index" using r_lt by simp
    ultimately show ?thesis using run r(2,3) inv2 frame by auto
  qed
qed

section \<open>The sweep\<close>

lemma points_of_offsets:
  assumes "offsets_to_points structure shape = Inr points"
  shows "length points = length structure"
    and "\<exists>neg :: 32 word. 0 \<le> sint neg \<and> sint neg < int (prod_list shape) \<and>
          (\<forall>i < length structure.
             0 \<le> sint (structure ! i + neg) \<and> sint (structure ! i + neg) < int (prod_list shape) \<and>
             points ! i = map2 (\<lambda>c d. c - d)
                            (unravel (nat (sint (structure ! i + neg))) shape)
                            (unravel (nat (sint neg)) shape))"
proof -
  let ?neg = "- signed_min (hd structure) (tl structure)"
  let ?P = "int (prod_list shape)"
  let ?bad = "structure = [] \<or> sint ?neg < 0 \<or> ?P \<le> sint ?neg \<or>
            (\<exists>off \<in> set structure. sint (off + ?neg) < 0 \<or> ?P \<le> sint (off + ?neg))"
  have nb: "\<not> ?bad"
    using assms offsets_to_points_eq[of "structure" shape] by (auto simp: Let_def split: if_splits)
  then have pts: "points = map (\<lambda>off. map2 (\<lambda>c d. c - d)
                            (unravel (nat (sint (off + ?neg))) shape)
                            (unravel (nat (sint ?neg)) shape)) structure"
    using assms offsets_to_points_eq[of "structure" shape] by (simp add: Let_def)
  show "length points = length structure" using pts by simp
  have "\<forall>i < length structure.
             0 \<le> sint (structure ! i + ?neg) \<and> sint (structure ! i + ?neg) < ?P \<and>
             points ! i = map2 (\<lambda>c d. c - d)
                            (unravel (nat (sint (structure ! i + ?neg))) shape)
                            (unravel (nat (sint ?neg)) shape)"
  proof (intro allI impI)
    fix i assume i: "i < length structure"
    then have "structure ! i \<in> set structure" by simp
    then have "0 \<le> sint (structure ! i + ?neg) \<and> sint (structure ! i + ?neg) < ?P"
      using nb by (meson not_le)
    then show "0 \<le> sint (structure ! i + ?neg) \<and> sint (structure ! i + ?neg) < ?P \<and>
             points ! i = map2 (\<lambda>c d. c - d)
                            (unravel (nat (sint (structure ! i + ?neg))) shape)
                            (unravel (nat (sint ?neg)) shape)"
      using pts i by simp
  qed
  moreover have "0 \<le> sint ?neg \<and> sint ?neg < ?P" using nb by (meson not_le)
  ultimately show "\<exists>neg :: 32 word. 0 \<le> sint neg \<and> sint neg < int (prod_list shape) \<and>
          (\<forall>i < length structure.
             0 \<le> sint (structure ! i + neg) \<and> sint (structure ! i + neg) < int (prod_list shape) \<and>
             points ! i = map2 (\<lambda>c d. c - d)
                            (unravel (nat (sint (structure ! i + neg))) shape)
                            (unravel (nat (sint neg)) shape))"
    by blast
qed

lemma neighbor_checked:
  assumes pre: "build_pre P msk structure shape points S"
    and p: "p \<in> set S" and i: "i < length structure"
  shows "\<exists>valid. ebind (getitem msk p) (\<lambda>m.
                  if m = 0
                  then ebind (getitem points (int i)) (\<lambda>pt. is_valid_coordinate p pt shape)
                  else Inr True) = Inr valid \<and>
            (valid \<longrightarrow> 0 \<le> p + sint (structure ! i) \<and> p + sint (structure ! i) < int P)"
proof -
  have rng: "0 \<le> p" "p < int P" using pre p by (auto simp: build_pre_def)
  have lm: "length msk = P" and ps: "prod_list shape = P"
    and otp: "offsets_to_points structure shape = Inr points"
    using pre by (simp_all add: build_pre_def)
  have gm: "getitem msk p = Inr (msk ! nat p)" using rng lm by (simp add: getitem_in)
  show ?thesis
  proof (cases "msk ! nat p = 0")
    case False
    have "structure ! i \<in> set structure" using i by simp
    then have "0 \<le> p + sint (structure ! i) \<and> p + sint (structure ! i) < int P"
      using pre p False by (auto simp: build_pre_def)
    then show ?thesis using gm False by (intro exI[of _ True]) simp
  next
    case True
    from points_of_offsets[OF otp] obtain neg :: "32 word" where
      lp: "length points = length structure"
      and neg: "0 \<le> sint neg" "sint neg < int (prod_list shape)"
      and pt: "0 \<le> sint (structure ! i + neg)" "sint (structure ! i + neg) < int (prod_list shape)"
        "points ! i = map2 (\<lambda>c d. c - d)
                            (unravel (nat (sint (structure ! i + neg))) shape)
                            (unravel (nat (sint neg)) shape)"
      using i by blast
    let ?a = "nat (sint (structure ! i + neg))"
    let ?b = "nat (sint neg)"
    let ?pt = "points ! i"
    have gp: "getitem points (int i) = Inr ?pt" using i lp by (simp add: getitem_def)
    have len: "length ?pt = length shape" using pt(3) by simp
    have "\<exists>b. valid_dims (unravel (nat p) shape) ?pt shape [0..<length shape] = Inr b"
      by (rule valid_dims_total) (simp add: len)
    then obtain v where v: "is_valid_coordinate p ?pt shape = Inr v"
      using rng ps by (auto simp: is_valid_coordinate_def unravel_index_def)
    have "0 \<le> p + sint (structure ! i) \<and> p + sint (structure ! i) < int P" if "v"
    proof -
      have "is_valid_coordinate p (map2 (\<lambda>c d. c - d) (unravel ?a shape) (unravel ?b shape)) shape
              = Inr True"
        using v that pt(3) by simp
      then have "0 \<le> p + (int ?a - int ?b) \<and> p + (int ?a - int ?b) < int (prod_list shape)"
        by (intro valid_neighbor_in_range) (use rng ps pt neg in auto)
      moreover have "int ?a - int ?b = sint (structure ! i)"
        using sint_shift_diff[OF pt(1) neg(1)] pt(1) neg(1) by simp
      ultimately show ?thesis using ps by simp
    qed
    then show ?thesis using gm True gp v by simp
  qed
qed

lemma uf_inv_update:
  assumes "uf_inv S xs D" "r \<in> D" "p \<in> D" "pos S p \<le> pos S r"
    and "\<forall>x \<in> D. 0 \<le> x" "length xs = P" "r < int P"
  shows "uf_inv S (xs[nat r := p]) D"
  unfolding uf_inv_def
proof
  fix x assume x: "x \<in> D"
  show "xs[nat r := p] ! nat x \<in> D \<and> pos S (xs[nat r := p] ! nat x) \<le> pos S x"
  proof (cases "x = r")
    case True
    have "nat r < length xs" using assms(2,5,6,7) by auto
    then show ?thesis using True assms(3,4) by simp
  next
    case False
    moreover have "0 \<le> x" "0 \<le> r" using assms(2,5) x by auto
    ultimately have "nat x \<noteq> nat r" by simp
    then have "xs[nat r := p] ! nat x = xs ! nat x" by simp
    then show ?thesis using assms(1) x by (simp add: uf_inv_def)
  qed
qed

lemma neighbor_step_inv:
  assumes pre: "build_pre P msk structure shape points S"
    and S: "S = pre @ p # post" and i: "i < length structure"
    and inv: "sweep_inv S P (set (p # post)) s"
  shows "\<exists>s'. neighbor_step msk structure shape points p s i = Some (Inr s') \<and>
               sweep_inv S P (set (p # post)) s'"
proof -
  let ?D = "set (p # post)"
  obtain parent zpar where s: "s = (parent, zpar)" by (cases s)
  have d: "distinct S" and perm: "set S = {0..<int P}" using pre by (simp_all add: build_pre_def)
  have DS: "?D \<subseteq> set S" using S by auto
  have Drng: "\<forall>x \<in> ?D. 0 \<le> x \<and> x < int P" using DS perm by auto
  have pS: "p \<in> set S" using S by simp
  have lens: "length parent = P" "length zpar = P"
    and ufp: "uf_inv S parent ?D" and ufz: "uf_inv S zpar ?D"
    and unv: "\<forall>x \<in> set S. x \<notin> ?D \<longrightarrow> parent ! nat x = - 1"
    using inv s by (simp_all add: sweep_inv_def)
  have pmin: "\<forall>x \<in> ?D. pos S p \<le> pos S x"
  proof
    fix x assume "x \<in> ?D"
    then have "x \<notin> set pre" using d S by auto
    then have "length pre \<le> pos S x" unfolding S by (rule pos_prefix_le)
    moreover have "p \<notin> set pre" using d S by auto
    then have "pos S p = length pre" unfolding S by (rule pos_after_prefix)
    ultimately show "pos S p \<le> pos S x" by simp
  qed
  let ?off = "structure ! i"
  let ?index = "p + sint ?off"
  have gs: "getitem structure (int i) = Inr ?off" using i by (simp add: getitem_def)
  from neighbor_checked[OF pre pS i] obtain valid where
    chk: "ebind (getitem msk p) (\<lambda>m.
                  if m = 0
                  then ebind (getitem points (int i)) (\<lambda>pt. is_valid_coordinate p pt shape)
                  else Inr True) = Inr valid"
    and vr: "valid \<longrightarrow> 0 \<le> ?index \<and> ?index < int P"
    by blast
  show ?thesis
  proof (cases valid)
    case False
    then have "neighbor_step msk structure shape points p s i = Some (Inr s)"
      using s gs chk by (simp add: neighbor_step_def Let_def)
    then show ?thesis using inv by simp
  next
    case True
    then have ir: "0 \<le> ?index" "?index < int P" using vr by simp_all
    have gp: "getitem parent ?index = Inr (parent ! nat ?index)"
      using ir lens by (simp add: getitem_in)
    show ?thesis
    proof (cases "parent ! nat ?index < 0")
      case neg: True
      then have "neighbor_step msk structure shape points p s i = Some (Inr s)"
        using s gs chk True gp by (simp add: neighbor_step_def Let_def)
      then show ?thesis using inv by simp
    next
      case nneg: False
      have "?index \<in> set S" using ir perm by simp
      then have iD: "?index \<in> ?D" using unv nneg by fastforce
      from find_root_total[OF DS Drng lens(2) ufz iD] obtain z1 r where
        fr: "find_root zpar ?index = Some (Inr (z1, r))" "length z1 = P" "r \<in> ?D"
          "z1 ! nat r = r" "uf_inv S z1 ?D"
        by blast
      have r_rng: "0 \<le> r" "r < int P" using Drng fr(3) by auto
      show ?thesis
      proof (cases "r = p")
        case True
        then have "neighbor_step msk structure shape points p s i = Some (Inr (parent, z1))"
          using s gs chk \<open>valid\<close> gp nneg fr(1) by (simp add: neighbor_step_def Let_def)
        moreover have "sweep_inv S P ?D (parent, z1)"
          using lens fr(2,5) ufp unv by (simp add: sweep_inv_def)
        ultimately show ?thesis by simp
      next
        case False
        let ?z2 = "z1[nat r := p]"
        let ?p1 = "parent[nat r := p]"
        have run: "neighbor_step msk structure shape points p s i = Some (Inr (?p1, ?z2))"
          using s gs chk \<open>valid\<close> gp nneg fr(1,2) False r_rng lens
          by (simp add: neighbor_step_def Let_def setitem_in)
        have pD: "p \<in> ?D" by simp
        have le: "pos S p \<le> pos S r" using pmin fr(3) by blast
        have D0: "\<forall>x \<in> ?D. 0 \<le> x" using Drng by blast
        have u1: "uf_inv S ?p1 ?D"
          by (rule uf_inv_update[OF ufp fr(3) pD le D0 lens(1) r_rng(2)])
        have u2: "uf_inv S ?z2 ?D"
          by (rule uf_inv_update[OF fr(5) fr(3) pD le D0 fr(2) r_rng(2)])
        have unv': "\<forall>x \<in> set S. x \<notin> ?D \<longrightarrow> ?p1 ! nat x = - 1"
        proof (intro ballI impI)
          fix x assume x: "x \<in> set S" "x \<notin> ?D"
          then have "x \<noteq> r" using fr(3) by auto
          moreover have "0 \<le> x" using x(1) perm by simp
          ultimately have "nat x \<noteq> nat r" using r_rng by simp
          then show "?p1 ! nat x = - 1" using unv x by simp
        qed
        have "sweep_inv S P ?D (?p1, ?z2)"
          using lens fr(2) u1 u2 unv' by (simp add: sweep_inv_def)
        then show ?thesis using run by simp
      qed
    qed
  qed
qed

lemma neighbor_loop_inv:
  assumes pre: "build_pre P msk structure shape points S"
    and S: "S = pre @ p # post"
  shows "\<forall>i \<in> set js. i < length structure \<Longrightarrow> sweep_inv S P (set (p # post)) s \<Longrightarrow>
    \<exists>s'. ofold (neighbor_step msk structure shape points p) js s = Some (Inr s') \<and>
         sweep_inv S P (set (p # post)) s'"
proof (induction js arbitrary: s)
  case Nil
  then show ?case by simp
next
  case (Cons j js)
  have "j < length structure" using Cons.prems(1) by simp
  from neighbor_step_inv[OF pre S this Cons.prems(2)] obtain s1 where
    s1: "neighbor_step msk structure shape points p s j = Some (Inr s1)"
      "sweep_inv S P (set (p # post)) s1"
    by blast
  have "\<exists>s'. ofold (neighbor_step msk structure shape points p) js s1 = Some (Inr s') \<and>
         sweep_inv S P (set (p # post)) s'"
    by (rule Cons.IH) (use Cons.prems(1) s1(2) in simp_all)
  then show ?case using s1(1) by simp
qed

lemma pixel_step_inv:
  assumes pre: "build_pre P msk structure shape points S"
    and S: "S = pre @ p # post"
    and inv: "sweep_inv S P (set post) s"
  shows "\<exists>s'. pixel_step msk structure shape points s p = Some (Inr s') \<and>
               sweep_inv S P (set (p # post)) s'"
proof -
  obtain parent zpar where s: "s = (parent, zpar)" by (cases s)
  have d: "distinct S" and perm: "set S = {0..<int P}" using pre by (simp_all add: build_pre_def)
  have p_rng: "0 \<le> p" "p < int P" using perm S by auto
  have p_new: "p \<notin> set post" using d S by simp
  have lens: "length parent = P" "length zpar = P"
    and ufp: "uf_inv S parent (set post)" and ufz: "uf_inv S zpar (set post)"
    and unv: "\<forall>x \<in> set S. x \<notin> set post \<longrightarrow> parent ! nat x = - 1"
    using inv s by (simp_all add: sweep_inv_def)
  let ?p1 = "parent[nat p := p]"
  let ?z1 = "zpar[nat p := p]"
  have ext: "uf_inv S (xs[nat p := p]) (set (p # post))"
    if "uf_inv S xs (set post)" "length xs = P" for xs
    unfolding uf_inv_def
  proof
    fix x assume x: "x \<in> set (p # post)"
    show "xs[nat p := p] ! nat x \<in> set (p # post) \<and>
          pos S (xs[nat p := p] ! nat x) \<le> pos S x"
    proof (cases "x = p")
      case True
      then show ?thesis using that(2) p_rng by simp
    next
      case False
      then have xp: "x \<in> set post" using x by simp
      then have "x \<in> set S" using S by simp
      then have "0 \<le> x" using perm by simp
      then have "nat x \<noteq> nat p" using False p_rng by simp
      then have "xs[nat p := p] ! nat x = xs ! nat x" by simp
      then show ?thesis using that(1) xp by (simp add: uf_inv_def)
    qed
  qed
  have unv': "\<forall>x \<in> set S. x \<notin> set (p # post) \<longrightarrow> ?p1 ! nat x = - 1"
  proof (intro ballI impI)
    fix x assume x: "x \<in> set S" "x \<notin> set (p # post)"
    then have "0 \<le> x" "x \<noteq> p" using perm by auto
    then have "nat x \<noteq> nat p" using p_rng by simp
    then show "?p1 ! nat x = - 1" using unv x by simp
  qed
  have inv1: "sweep_inv S P (set (p # post)) (?p1, ?z1)"
    using lens ext[OF ufp lens(1)] ext[OF ufz lens(2)] unv'
    by (simp add: sweep_inv_def)
  have "\<exists>s'. ofold (neighbor_step msk structure shape points p) [0..<length structure] (?p1, ?z1)
                = Some (Inr s') \<and> sweep_inv S P (set (p # post)) s'"
    by (rule neighbor_loop_inv[OF pre S _ inv1]) simp
  moreover have "pixel_step msk structure shape points s p =
      ofold (neighbor_step msk structure shape points p) [0..<length structure] (?p1, ?z1)"
    using s p_rng lens by (simp add: pixel_step_def setitem_in)
  ultimately show ?thesis by simp
qed

lemma ofold_append:
  "ofold f (xs @ ys) s =
     (case ofold f xs s of None \<Rightarrow> None | Some (Inl e) \<Rightarrow> Some (Inl e)
      | Some (Inr s') \<Rightarrow> ofold f ys s')"
  by (induction xs arbitrary: s) (auto split: option.splits sum.splits)

lemma sweep_loop_inv:
  assumes pre: "build_pre P msk structure shape points S"
  shows "S = pre @ post \<Longrightarrow> sweep_inv S P (set post) s \<Longrightarrow>
    \<exists>s'. ofold (pixel_step msk structure shape points) (rev pre) s = Some (Inr s') \<and>
         sweep_inv S P (set S) s'"
proof (induction pre arbitrary: post s rule: rev_induct)
  case Nil
  then show ?case by simp
next
  case (snoc p pre)
  have S: "S = pre @ p # post" using snoc.prems(1) by simp
  from pixel_step_inv[OF pre S snoc.prems(2)] obtain s1 where
    s1: "pixel_step msk structure shape points s p = Some (Inr s1)"
      "sweep_inv S P (set (p # post)) s1"
    by blast
  from snoc.IH[OF S s1(2)] obtain s' where
    "ofold (pixel_step msk structure shape points) (rev pre) s1 = Some (Inr s')"
    "sweep_inv S P (set S) s'"
    by blast
  then show ?case using s1(1) by simp
qed

lemma init_loop:
  "n \<le> length a \<Longrightarrow> length b = length a \<Longrightarrow>
     efold init_step [0..<n] (a, b) =
       Inr (replicate n (- 1) @ drop n a, replicate n (- 1) @ drop n b)"
proof (induction n)
  case 0
  then show ?case by simp
next
  case (Suc n)
  have n: "n < length a" "n < length b" using Suc.prems by simp_all
  have ih: "efold init_step [0..<n] (a, b) =
       Inr (replicate n (- 1) @ drop n a, replicate n (- 1) @ drop n b)"
    using Suc by simp
  have upd: "(replicate n (- 1) @ drop n xs)[n := - 1] = replicate (Suc n) (- 1) @ drop (Suc n) xs"
    if "n < length xs" for xs :: "int list"
  proof -
    have "drop n xs = xs ! n # drop (Suc n) xs" using that by (simp add: Cons_nth_drop_Suc)
    then show ?thesis by (simp add: list_update_append replicate_append_same)
  qed
  have "init_step (replicate n (- 1) @ drop n a, replicate n (- 1) @ drop n b) n =
      Inr (replicate (Suc n) (- 1) @ drop (Suc n) a, replicate (Suc n) (- 1) @ drop (Suc n) b)"
    using n upd[OF n(1)] upd[OF n(2)] by (simp add: init_step_def setitem_def)
  then show ?case using ih by (simp add: efold_append)
qed

lemma sweep_inv_init:
  assumes "set S = {0..<int P}"
  shows "sweep_inv S P {} (replicate P (- 1), replicate P (- 1))"
  using assms by (auto simp: sweep_inv_def uf_inv_def)

section \<open>Canonization\<close>

lemma canonize_step_in:
  assumes "0 \<le> p" "p < int P" "0 \<le> parent ! nat p" "parent ! nat p < int P"
    "0 \<le> parent ! nat (parent ! nat p)" "parent ! nat (parent ! nat p) < int P"
    "length parent = P" "length img = P"
  shows "canonize_step img parent p =
     Inr (if img ! nat (parent ! nat p) = img ! nat (parent ! nat (parent ! nat p))
          then parent[nat p := parent ! nat (parent ! nat p)] else parent)"
  using assms by (simp add: canonize_step_def getitem_in setitem_in)

lemma before_in_prefix:
  assumes "x \<in> set (xs @ p # ys)" "pos (xs @ p # ys) x < pos (xs @ p # ys) p" "p \<notin> set xs"
  shows "x \<in> set xs"
proof (rule ccontr)
  assume "x \<notin> set xs"
  then have "length xs \<le> pos (xs @ p # ys) x" by (rule pos_prefix_le)
  moreover have "pos (xs @ p # ys) p = length xs" using assms(3) by (rule pos_after_prefix)
  ultimately show False using assms(2) by simp
qed

lemma canonize_loop:
  assumes d: "distinct S" and perm: "set S = {0..<int P}" and li: "length img = P"
  shows "S = done @ todo \<Longrightarrow> length parent = P \<Longrightarrow> uf_inv S parent (set S) \<Longrightarrow>
     \<forall>x \<in> set done. canonical img parent (parent ! nat x) \<Longrightarrow>
     \<exists>parent'. efold (canonize_step img) todo parent = Inr parent' \<and> length parent' = P \<and>
        uf_inv S parent' (set S) \<and>
        (\<forall>x \<in> set S. canonical img parent' (parent' ! nat x))"
proof (induction todo arbitrary: "done" parent)
  case Nil
  then show ?case by simp
next
  case (Cons p todo)
  note S = Cons.prems(1) and lp = Cons.prems(2) and uf = Cons.prems(3) and can = Cons.prems(4)
  let ?q = "parent ! nat p"
  let ?pq = "parent ! nat ?q"
  let ?parent1 = "if img ! nat ?q = img ! nat ?pq then parent[nat p := ?pq] else parent"
  have rng: "\<And>x. x \<in> set S \<Longrightarrow> 0 \<le> x \<and> x < int P" using perm by simp
  have pS: "p \<in> set S" using S by simp
  have qS: "?q \<in> set S" "pos S ?q \<le> pos S p" using uf pS by (auto simp: uf_inv_def)
  have pqS: "?pq \<in> set S" "pos S ?pq \<le> pos S ?q" using uf qS(1) by (auto simp: uf_inv_def)
  have p_new: "p \<notin> set done" using d S by auto
  have step: "canonize_step img parent p = Inr ?parent1"
    using canonize_step_in[of p P parent img] rng[OF pS] rng[OF qS(1)] rng[OF pqS(1)] lp li
    by simp
  have l1: "length ?parent1 = P" using lp by simp
  have same: "?parent1 ! nat x = parent ! nat x" if "x \<in> set S" "x \<noteq> p" for x
  proof -
    have "nat x \<noteq> nat p" using that rng[OF pS] rng[OF that(1)] by auto
    then show ?thesis by simp
  qed
  have at_p: "?parent1 ! nat p = (if img ! nat ?q = img ! nat ?pq then ?pq else ?q)"
  proof -
    have "nat p < length parent" using lp rng[OF pS] by auto
    then show ?thesis by simp
  qed
  have uf1: "uf_inv S ?parent1 (set S)"
    unfolding uf_inv_def
  proof
    fix x assume x: "x \<in> set S"
    show "?parent1 ! nat x \<in> set S \<and> pos S (?parent1 ! nat x) \<le> pos S x"
    proof (cases "x = p")
      case True
      then show ?thesis using at_p qS pqS by auto
    next
      case False
      then show ?thesis using same[OF x False] uf x by (simp add: uf_inv_def)
    qed
  qed
  have earlier: "x \<in> set done \<and> x \<noteq> p" if "x \<in> set S" "pos S x < pos S p" for x
  proof -
    have "x \<in> set done" using before_in_prefix[of x "done" p todo] that S p_new by simp
    then show ?thesis using p_new by auto
  qed
  have keep: "canonical img ?parent1 c" if "canonical img parent c" "c \<in> set S" "c \<noteq> p" for c
    using that same[OF that(2,3)] by (simp add: canonical_def)
  have can1: "\<forall>x \<in> set (done @ [p]). canonical img ?parent1 (?parent1 ! nat x)"
  proof
    fix x assume "x \<in> set (done @ [p])"
    then consider "x \<in> set done" | "x = p" by auto
    then show "canonical img ?parent1 (?parent1 ! nat x)"
    proof cases
      case 1
      then have xS: "x \<in> set S" and xp: "x \<noteq> p" using S p_new by auto
      let ?c = "parent ! nat x"
      have c: "?c \<in> set S" "pos S ?c \<le> pos S x" using uf xS by (auto simp: uf_inv_def)
      have "pos S x \<noteq> pos S p" using pos_inj[OF xS _ pS] xp by auto
      moreover have "pos S x \<le> pos S p"
      proof -
        have "pos S x < length done" using 1 S pos_in_prefix by simp
        moreover have "pos S p = length done" using S p_new pos_after_prefix by simp
        ultimately show ?thesis by simp
      qed
      ultimately have "pos S ?c < pos S p" using c(2) by simp
      then have "?c \<noteq> p" by auto
      then have "canonical img ?parent1 ?c" using keep can 1 c(1) by simp
      then show ?thesis using same[OF xS xp] by simp
    next
      case 2
      show ?thesis
      proof (cases "img ! nat ?q = img ! nat ?pq")
        case False
        then have "canonical img parent ?q" by (auto simp: canonical_def)
        then show ?thesis using 2 False by simp
      next
        case True
        show ?thesis
        proof (cases "?q = p")
          case qp: True
          then have "?parent1 ! nat p = p" using at_p by simp
          then show ?thesis using 2 by (simp add: canonical_def)
        next
          case qnp: False
          have "pos S ?q \<noteq> pos S p" using pos_inj[OF qS(1) _ pS] qnp by auto
          then have lt: "pos S ?q < pos S p" using qS(2) by simp
          then have "?q \<in> set done" using earlier qS(1) by simp
          then have cq: "canonical img parent ?pq" using can by simp
          have "pos S ?pq < pos S p" using pqS(2) lt by simp
          then have "?pq \<noteq> p" by auto
          then have "canonical img ?parent1 ?pq" using keep cq pqS(1) by simp
          then show ?thesis using 2 True at_p by simp
        qed
      qed
    qed
  qed
  have "\<exists>parent'. efold (canonize_step img) todo ?parent1 = Inr parent' \<and> length parent' = P \<and>
        uf_inv S parent' (set S) \<and>
        (\<forall>x \<in> set S. canonical img parent' (parent' ! nat x))"
    by (rule Cons.IH[of "done @ [p]"]) (use S l1 uf1 can1 in simp_all)
  then show ?case using step by simp
qed

section \<open>Claims about the builder\<close>

lemma sorted_by_pos:
  assumes "sorted (map f S)" "a \<in> set S" "b \<in> set S" "pos S a \<le> pos S b"
  shows "f a \<le> f b"
proof -
  have "map f S ! pos S a \<le> map f S ! pos S b"
    using assms(1,4) pos_less[OF assms(3)] by (simp add: sorted_iff_nth_mono)
  then show ?thesis
    using pos_less[OF assms(2)] pos_less[OF assms(3)] nth_pos[OF assms(2)] nth_pos[OF assms(3)]
    by simp
qed

lemma build_max_tree_rest_post:
  fixes img :: "('a::linorder) list"
  assumes pre: "build_pre P msk structure shape points S"
    and li: "length img = P" and lp: "length parent = P" and P: "0 < P"
  shows "\<exists>parent'. build_max_tree_rest img msk structure shape parent S = Some (Inr parent') \<and>
     length parent' = P \<and> uf_inv S parent' (set S) \<and>
     (\<forall>x \<in> set S. canonical img parent' (parent' ! nat x))"
proof -
  have d: "distinct S" and perm: "set S = {0..<int P}"
    and otp: "offsets_to_points structure shape = Inr points"
    using pre by (simp_all add: build_pre_def)
  have cp: "memoryview_copy parent = Inr parent"
    using lp P by (auto simp: memoryview_copy_def)
  let ?s0 = "(replicate P (- 1) :: int list, replicate P (- 1) :: int list)"
  have init: "efold init_step [0..<length img] (parent, parent) = Inr ?s0"
    using init_loop[of P parent parent] li lp by simp
  have "\<exists>s'. ofold (pixel_step msk structure shape points) (rev S) ?s0 = Some (Inr s') \<and>
         sweep_inv S P (set S) s'"
    by (rule sweep_loop_inv[OF pre, where post="[]"]) (simp_all add: sweep_inv_init[OF perm])
  then obtain parent1 zpar1 where
    sw: "ofold (pixel_step msk structure shape points) (rev S) ?s0 = Some (Inr (parent1, zpar1))"
    and inv: "sweep_inv S P (set S) (parent1, zpar1)"
    by auto
  have l1: "length parent1 = P" and uf1: "uf_inv S parent1 (set S)"
    using inv by (simp_all add: sweep_inv_def)
  have "\<exists>parent'. efold (canonize_step img) S parent1 = Inr parent' \<and> length parent' = P \<and>
        uf_inv S parent' (set S) \<and>
        (\<forall>x \<in> set S. canonical img parent' (parent' ! nat x))"
    by (rule canonize_loop[OF d perm li, where ?done="[]"]) (simp_all add: l1 uf1)
  then obtain parent' where
    c: "efold (canonize_step img) S parent1 = Inr parent'" "length parent' = P"
      "uf_inv S parent' (set S)" "\<forall>x \<in> set S. canonical img parent' (parent' ! nat x)"
    by blast
  have "build_max_tree_rest img msk structure shape parent S = Some (Inr parent')"
    using cp otp init sw c(1) by (simp add: build_max_tree_rest_def canonize_def)
  then show ?thesis using c(2,3,4) by blast
qed

text \<open>
  What the statements after \<^verbatim>\<open>len(strides)\<close> do. Let the order be a permutation of
  \<open>[0, P)\<close> in ascending value, the mask be zero at every pixel with a neighbour outside
  \<open>[0, P)\<close>, and the offsets unravel in the shape. Then these statements return normally,
  and in the array \<open>parent\<close> they leave: the first pixel of the order is its own parent; the
  parent of every pixel \<open>p\<close> is a pixel that is not later than \<open>p\<close> in the order and whose
  value is at most that of \<open>p\<close>; and that parent is its own parent (a root of the forest)
  or its parent has a strictly lower value. This says nothing of which pixels a tree joins:
  see \<open>build_max_tree_raises\<close> below.
\<close>

lemma build_max_tree_rest_canonical:
  fixes img :: "('a::linorder) list"
  assumes "build_pre P msk structure shape points sorted_indices"
    and "length img = P" and "length parent = P" and "0 < P"
    and "sorted (map (\<lambda>p. img ! nat p) sorted_indices)"
  shows "\<exists>parent'. build_max_tree_rest img msk structure shape parent sorted_indices
                      = Some (Inr parent') \<and>
     length parent' = P \<and>
     parent' ! nat (hd sorted_indices) = hd sorted_indices \<and>
     (\<forall>p \<in> set sorted_indices.
        parent' ! nat p \<in> set sorted_indices \<and>
        pos sorted_indices (parent' ! nat p) \<le> pos sorted_indices p \<and>
        img ! nat (parent' ! nat p) \<le> img ! nat p \<and>
        (parent' ! nat (parent' ! nat p) = parent' ! nat p \<or>
         img ! nat (parent' ! nat (parent' ! nat p)) < img ! nat (parent' ! nat p)))"
proof -
  let ?S = sorted_indices
  from build_max_tree_rest_post[OF assms(1,2,3,4)] obtain parent' where
    b: "build_max_tree_rest img msk structure shape parent ?S = Some (Inr parent')"
      "length parent' = P" "uf_inv ?S parent' (set ?S)"
      "\<forall>x \<in> set ?S. canonical img parent' (parent' ! nat x)"
    by blast
  have perm: "set ?S = {0..<int P}" using assms(1) by (simp add: build_pre_def)
  then have ne: "?S \<noteq> []" using assms(4) by auto
  then have hS: "hd ?S \<in> set ?S" by simp
  have up: "\<And>x. x \<in> set ?S \<Longrightarrow>
      parent' ! nat x \<in> set ?S \<and> pos ?S (parent' ! nat x) \<le> pos ?S x"
    using b(3) by (simp add: uf_inv_def)
  have "pos ?S (hd ?S) = 0" using ne by (cases ?S) (simp_all add: pos_def)
  then have "pos ?S (parent' ! nat (hd ?S)) = pos ?S (hd ?S)" using up[OF hS] by simp
  then have root: "parent' ! nat (hd ?S) = hd ?S"
    using pos_inj[of "parent' ! nat (hd ?S)" ?S "hd ?S"] up[OF hS] hS by simp
  have le: "img ! nat (parent' ! nat x) \<le> img ! nat x" if "x \<in> set ?S" for x
    using sorted_by_pos[OF assms(5), of "parent' ! nat x" x] up[OF that] that by simp
  have "parent' ! nat p \<in> set ?S \<and>
        pos ?S (parent' ! nat p) \<le> pos ?S p \<and>
        img ! nat (parent' ! nat p) \<le> img ! nat p \<and>
        (parent' ! nat (parent' ! nat p) = parent' ! nat p \<or>
         img ! nat (parent' ! nat (parent' ! nat p)) < img ! nat (parent' ! nat p))"
    if p: "p \<in> set ?S" for p
  proof -
    let ?c = "parent' ! nat p"
    have c: "?c \<in> set ?S" using up[OF p] by simp
    have "canonical img parent' ?c" using b(4) p by simp
    then have "parent' ! nat ?c = ?c \<or> img ! nat (parent' ! nat ?c) < img ! nat ?c"
      using le[OF c] by (auto simp: canonical_def)
    then show ?thesis using up[OF p] le[OF p] by simp
  qed
  then show ?thesis using b(1,2) root by blast
qed

text \<open>
  Where the offsets do not connect all pixels, these statements leave a forest: on the
  \<open>3 \<times> 3\<close> image \<open>0, \<dots>, 8\<close> with the two horizontal offsets \<open>-1\<close> and \<open>+1\<close> each row
  becomes a tree of its own, and pixel \<open>3\<close>, the first of the second row, is its own parent
  without being the first pixel of the order.
\<close>

lemma build_max_tree_rest_forest:
  "build_pre 9 [0, 0, 0, 0, 1, 0, 0, 0, 0] [- 1, 1] [3, 3] [[0, - 1], [0, 1]]
     [0, 1, 2, 3, 4, 5, 6, 7, 8] \<and>
   build_max_tree_rest [0, 1, 2, 3, 4, 5, 6, 7, 8 :: int] [0, 0, 0, 0, 1, 0, 0, 0, 0]
      [- 1, 1] [3, 3] [0, 0, 0, 0, 0, 0, 0, 0, 0] [0, 1, 2, 3, 4, 5, 6, 7, 8]
     = Some (Inr [0, 0, 1, 3, 3, 4, 6, 6, 7])"
proof -
  have pre: "build_pre 9 [0, 0, 0, 0, 1, 0, 0, 0, 0] [- 1, 1] [3, 3] [[0, - 1], [0, 1]]
     [0, 1, 2, 3, 4, 5, 6, 7, 8]"
    by code_simp
  have run: "build_max_tree_rest [0, 1, 2, 3, 4, 5, 6, 7, 8 :: int] [0, 0, 0, 0, 1, 0, 0, 0, 0]
      [- 1, 1] [3, 3] [0, 0, 0, 0, 0, 0, 0, 0, 0] [0, 1, 2, 3, 4, 5, 6, 7, 8]
     = Some (Inr [0, 0, 1, 3, 3, 4, 6, 6, 7])"
    by code_simp
  show ?thesis using pre run by simp
qed

text \<open>Every call of \<^verbatim>\<open>_build_max_tree\<close> raises, whatever its arguments.\<close>

lemma build_max_tree_unbound_strides:
  "build_max_tree img msk structure shape parent sorted_indices = Some (Inl NameError)"
  by (simp add: build_max_tree_def strides_def)

text \<open>
  The input of the theorem below satisfies what the claim asks: a \<open>3 \<times> 3\<close> image with the
  four offsets of its 4-neighbourhood, a mask that is zero on the border, and the pixels in
  ascending value, equal values in index order.
\<close>

lemma four_neighbours_input:
  "build_pre 9 [0, 0, 0, 0, 1, 0, 0, 0, 0] [- 3, 3, - 1, 1] [3, 3]
     [[- 1, 0], [1, 0], [- 1, 2], [0, 1]] [0, 4, 5, 6, 7, 8, 1, 3, 2] \<and>
   sorted (map (\<lambda>p. [0, 5, 6, 5, 0, 0, 0, 0, 0 :: int] ! nat p) [0, 4, 5, 6, 7, 8, 1, 3, 2])"
proof -
  have pre: "build_pre 9 [0, 0, 0, 0, 1, 0, 0, 0, 0] [- 3, 3, - 1, 1] [3, 3]
     [[- 1, 0], [1, 0], [- 1, 2], [0, 1]] [0, 4, 5, 6, 7, 8, 1, 3, 2]"
    by code_simp
  show ?thesis using pre by simp
qed

text \<open>
  C1. The code does not do what the claim says: \<^verbatim>\<open>_build_max_tree\<close> does not
  terminate normally, and the statements it would go on with do not give every pixel a
  parent of its own flat zone. On the \<open>3 \<times> 3\<close> image with the rows \<open>0 5 6\<close>, \<open>5 0 0\<close> and
  \<open>0 0 0\<close>, with the four offsets \<open>-3, 3, -1, 1\<close> of the 4-neighbourhood, the call raises
  \<^verbatim>\<open>NameError\<close> at \<^verbatim>\<open>len(strides)\<close>. Past that statement, the centre
  \<^verbatim>\<open>unravel_index(neg_shift)\<close> of \<^verbatim>\<open>offsets_to_points\<close> is the pixel \<open>(1, 0)\<close> on the
  left border, and the row of \<^verbatim>\<open>points\<close> for the offset \<open>-1\<close> is \<open>(-1, 2)\<close>, not
  \<open>(0, -1)\<close>; so the validity test of a border pixel joins the pixel \<open>(1, 0)\<close> to the pixel
  \<open>(0, 2)\<close>, which is not its neighbour. The pixel \<open>3 = (1, 0)\<close> has the value \<open>5\<close> and its
  4-neighbours \<open>0\<close>, \<open>4\<close> and \<open>6\<close> have the value \<open>0\<close>: it is a flat zone by itself. It gets
  the parent \<open>1 = (0, 1)\<close>, of value \<open>5\<close>: a pixel of another flat zone.
\<close>

theorem build_max_tree_raises:
  "build_max_tree [0, 5, 6, 5, 0, 0, 0, 0, 0 :: int] [0, 0, 0, 0, 1, 0, 0, 0, 0]
      [- 3, 3, - 1, 1] [3, 3] [0, 0, 0, 0, 0, 0, 0, 0, 0] [0, 4, 5, 6, 7, 8, 1, 3, 2]
     = Some (Inl NameError) \<and>
   offsets_to_points [- 3, 3, - 1, 1] [3, 3] = Inr [[- 1, 0], [1, 0], [- 1, 2], [0, 1]] \<and>
   build_max_tree_rest [0, 5, 6, 5, 0, 0, 0, 0, 0 :: int] [0, 0, 0, 0, 1, 0, 0, 0, 0]
      [- 3, 3, - 1, 1] [3, 3] [0, 0, 0, 0, 0, 0, 0, 0, 0] [0, 4, 5, 6, 7, 8, 1, 3, 2]
     = Some (Inr [0, 0, 1, 1, 0, 0, 0, 0, 0])"
proof -
  have raises: "build_max_tree [0, 5, 6, 5, 0, 0, 0, 0, 0 :: int] [0, 0, 0, 0, 1, 0, 0, 0, 0]
      [- 3, 3, - 1, 1] [3, 3] [0, 0, 0, 0, 0, 0, 0, 0, 0] [0, 4, 5, 6, 7, 8, 1, 3, 2]
     = Some (Inl NameError)"
    by (simp add: build_max_tree_def strides_def)
  have points: "offsets_to_points [- 3, 3, - 1, 1] [3, 3]
     = Inr [[- 1, 0], [1, 0], [- 1, 2], [0, 1]]"
    by code_simp
  have run: "build_max_tree_rest [0, 5, 6, 5, 0, 0, 0, 0, 0 :: int] [0, 0, 0, 0, 1, 0, 0, 0, 0]
      [- 3, 3, - 1, 1] [3, 3] [0, 0, 0, 0, 0, 0, 0, 0, 0] [0, 4, 5, 6, 7, 8, 1, 3, 2]
     = Some (Inr [0, 0, 1, 1, 0, 0, 0, 0, 0])"
    by code_simp
  show ?thesis using raises points run by simp
qed

section \<open>Which buffers a call changes\<close>

lemma store_frame:
  "store m b i v = Inr m' \<Longrightarrow> c \<noteq> b \<Longrightarrow> m' c = m c"
  by (auto simp: store_def ebind_def split: sum.splits)

lemma efold_frame:
  assumes "\<And>s x s'. f s x = Inr s' \<Longrightarrow> s' c = s c"
  shows "efold f xs (s :: memory) = Inr s' \<Longrightarrow> s' c = s c"
proof (induction xs arbitrary: s)
  case Nil
  then show ?case by simp
next
  case (Cons x xs)
  then obtain s1 where s1: "f s x = Inr s1" "efold f xs s1 = Inr s'"
    by (auto split: sum.splits)
  then show ?case using assms[OF s1(1)] Cons.IH[OF s1(2)] by simp
qed

lemma mem_write_root_frame:
  "mem_write_root m image_buf output_buf attribute_buf thr r = Inr m' \<Longrightarrow> c \<noteq> output_buf \<Longrightarrow>
     m' c = m c"
  by (auto simp: mem_write_root_def ebind_def split: sum.splits if_splits dest: store_frame)

lemma mem_direct_step_frame:
  "mem_direct_step image_buf output_buf parent_buf sorted_buf attribute_buf thr r m k = Inr m' \<Longrightarrow>
     c \<noteq> output_buf \<Longrightarrow> m' c = m c"
  by (auto simp: mem_direct_step_def ebind_def split: sum.splits if_splits dest: store_frame)

lemma mem_cut_first_step_frame:
  "mem_cut_first_step image_buf output_buf parent_buf sorted_buf attribute_buf thr r m k = Inr m' \<Longrightarrow>
     c \<noteq> output_buf \<Longrightarrow> m' c = m c"
  by (auto simp: mem_cut_first_step_def ebind_def split: sum.splits if_splits dest: store_frame)

lemma mem_area_step_frame:
  "mem_area_step area_buf parent_buf sorted_buf r m k = Inr m' \<Longrightarrow>
     c \<noteq> area_buf \<Longrightarrow> m' c = m c"
  by (auto simp: mem_area_step_def ebind_def split: sum.splits if_splits dest: store_frame)

lemma mem_direct_filter_frame:
  assumes "mem_direct_filter m image_buf output_buf parent_buf sorted_buf attribute_buf thr = Inr m'"
    and "c \<noteq> output_buf"
  shows "m' c = m c"
proof -
  from assms(1) obtain r m1 where
    m1: "mem_write_root m image_buf output_buf attribute_buf thr r = Inr m1"
    and run: "efold (mem_direct_step image_buf output_buf parent_buf sorted_buf attribute_buf thr r)
           [0..<length (m sorted_buf)] m1 = Inr m'"
    by (auto simp: mem_direct_filter_def ebind_def split: sum.splits)
  have "m' c = m1 c"
    by (rule efold_frame[OF _ run]) (rule mem_direct_step_frame[OF _ assms(2)])
  then show ?thesis using mem_write_root_frame[OF m1 assms(2)] by simp
qed

lemma mem_cut_first_filter_frame:
  assumes "mem_cut_first_filter m image_buf output_buf parent_buf sorted_buf attribute_buf thr = Inr m'"
    and "c \<noteq> output_buf"
  shows "m' c = m c"
proof -
  from assms(1) obtain r m1 where
    m1: "mem_write_root m image_buf output_buf attribute_buf thr r = Inr m1"
    and run: "efold (mem_cut_first_step image_buf output_buf parent_buf sorted_buf attribute_buf thr r)
           [0..<length (m sorted_buf)] m1 = Inr m'"
    by (auto simp: mem_cut_first_filter_def ebind_def split: sum.splits)
  have "m' c = m1 c"
    by (rule efold_frame[OF _ run]) (rule mem_cut_first_step_frame[OF _ assms(2)])
  then show ?thesis using mem_write_root_frame[OF m1 assms(2)] by simp
qed

lemma mem_compute_area_frame:
  assumes "mem_compute_area m area_buf image_buf parent_buf sorted_buf = Inr m'"
    and "c \<noteq> area_buf"
  shows "m' c = m c"
proof -
  from assms(1) obtain r where
    run: "efold (mem_area_step area_buf parent_buf sorted_buf r)
           (rev [0..<length (m sorted_buf)]) (m(area_buf := replicate (length (m image_buf)) 1))
          = Inr m'"
    by (auto simp: mem_compute_area_def ebind_def split: sum.splits)
  have "m' c = (m(area_buf := replicate (length (m image_buf)) 1)) c"
    by (rule efold_frame[OF _ run]) (rule mem_area_step_frame[OF _ assms(2)])
  then show ?thesis using assms(2) by simp
qed

section \<open>Arrays of their own: the two models agree\<close>

lemma load_index_map: "load_index m b i = getitem (map floor (m b)) i"
  by (simp add: load_index_def getitem_def Let_def)

lemma put_buffer_simps [simp]:
  "put_buffer m b (Inl e) = Inl e"
  "put_buffer m b (Inr xs) = Inr (m(b := xs))"
  by (simp_all add: put_buffer_def)

lemma efold_refines:
  assumes step: "\<And>k (out :: real list). k \<in> set ks \<Longrightarrow>
             F (m(b := out)) k = put_buffer m b (f out (g k))"
  shows "efold F ks (m(b := out)) = put_buffer m b (efold f (map g ks) out)"
  using step
proof (induction ks arbitrary: out)
  case Nil
  then show ?case by (simp del: fun_upd_apply)
next
  case (Cons k ks)
  have s: "F (m(b := out)) k = put_buffer m b (f out (g k))"
    by (rule Cons.prems) simp
  show ?case
  proof (cases "f out (g k)")
    case (Inl e)
    then show ?thesis using s by (simp del: fun_upd_apply)
  next
    case (Inr out1)
    have "efold F ks (m(b := out1)) = put_buffer m b (efold f (map g ks) out1)"
      by (rule Cons.IH) (rule Cons.prems, simp)
    then show ?thesis using s Inr by (simp del: fun_upd_apply)
  qed
qed

lemma store_own:
  "store (m(b := out)) b i v = put_buffer m b (setitem out i v)"
  by (cases "setitem out i v") (simp_all add: store_def)

lemma mem_write_root_refines:
  assumes "output_buf \<noteq> image_buf" "output_buf \<noteq> attribute_buf"
  shows "mem_write_root m image_buf output_buf attribute_buf thr r =
     put_buffer m output_buf
       (write_root (m image_buf) (m output_buf) (m attribute_buf) thr r)"
proof -
  have "store m output_buf i v = put_buffer m output_buf (setitem (m output_buf) i v)"
    for i v
    using store_own[of m output_buf "m output_buf" i v] by simp
  then show ?thesis
    by (cases "getitem (m attribute_buf) r"; cases "getitem (m image_buf) r")
       (simp_all add: mem_write_root_def write_root_def)
qed

lemma mem_direct_step_refines:
  assumes "output_buf \<notin> {image_buf, parent_buf, sorted_buf, attribute_buf}"
    and "k < length (m sorted_buf)"
  shows "mem_direct_step image_buf output_buf parent_buf sorted_buf attribute_buf thr r
           (m(output_buf := out)) k =
     put_buffer m output_buf
       (direct_step (m image_buf) (map floor (m parent_buf)) (m attribute_buf) thr r out
          (map floor (m sorted_buf) ! k))"
proof -
  let ?m = "m(output_buf := out)"
  let ?p = "map floor (m sorted_buf) ! k"
  have bufs: "?m image_buf = m image_buf" "?m parent_buf = m parent_buf"
    "?m sorted_buf = m sorted_buf" "?m attribute_buf = m attribute_buf" "?m output_buf = out"
    using assms(1) by auto
  have lp: "load_index ?m sorted_buf (int k) = Inr ?p"
    using assms(2) bufs(3) by (simp add: load_index_map getitem_def)
  show ?thesis
  proof (cases "?p = r")
    case True
    then show ?thesis using lp by (simp add: mem_direct_step_def direct_step_def)
  next
    case False
    show ?thesis
      unfolding mem_direct_step_def direct_step_def lp
      using False bufs
      by (simp add: load_index_map store_own ebind_def split: sum.splits)
  qed
qed

lemma mem_cut_first_step_refines:
  assumes "output_buf \<notin> {image_buf, parent_buf, sorted_buf, attribute_buf}"
    and "k < length (m sorted_buf)"
  shows "mem_cut_first_step image_buf output_buf parent_buf sorted_buf attribute_buf thr r
           (m(output_buf := out)) k =
     put_buffer m output_buf
       (cut_first_step (m image_buf) (map floor (m parent_buf)) (m attribute_buf) thr r out
          (map floor (m sorted_buf) ! k))"
proof -
  let ?m = "m(output_buf := out)"
  let ?p = "map floor (m sorted_buf) ! k"
  have bufs: "?m image_buf = m image_buf" "?m parent_buf = m parent_buf"
    "?m sorted_buf = m sorted_buf" "?m attribute_buf = m attribute_buf" "?m output_buf = out"
    using assms(1) by auto
  have lp: "load_index ?m sorted_buf (int k) = Inr ?p"
    using assms(2) bufs(3) by (simp add: load_index_map getitem_def)
  show ?thesis
  proof (cases "?p = r")
    case True
    then show ?thesis using lp by (simp add: mem_cut_first_step_def cut_first_step_def)
  next
    case False
    show ?thesis
      unfolding mem_cut_first_step_def cut_first_step_def lp
      using False bufs
      by (simp add: load_index_map store_own ebind_def split: sum.splits)
  qed
qed

lemma mem_direct_filter_refines:
  assumes "output_buf \<notin> {image_buf, parent_buf, sorted_buf, attribute_buf}"
  shows "mem_direct_filter m image_buf output_buf parent_buf sorted_buf attribute_buf thr =
     put_buffer m output_buf
       (direct_filter (m image_buf) (m output_buf) (map floor (m parent_buf))
          (map floor (m sorted_buf)) (m attribute_buf) thr)"
proof (cases "getitem (map floor (m sorted_buf)) 0")
  case (Inl e)
  then show ?thesis by (simp add: mem_direct_filter_def direct_filter_def load_index_map)
next
  case (Inr r)
  let ?F = "mem_direct_step image_buf output_buf parent_buf sorted_buf attribute_buf thr r"
  let ?f = "direct_step (m image_buf) (map floor (m parent_buf)) (m attribute_buf) thr r"
  let ?S = "map floor (m sorted_buf)"
  have loop: "efold ?F [0..<length (m sorted_buf)] (m(output_buf := out)) =
       put_buffer m output_buf (efold ?f ?S out)" for out
  proof -
    have "efold ?F [0..<length (m sorted_buf)] (m(output_buf := out)) =
       put_buffer m output_buf
         (efold ?f (map (\<lambda>k. ?S ! k) [0..<length (m sorted_buf)]) out)"
      by (rule efold_refines) (simp add: mem_direct_step_refines[OF assms])
    moreover have "map (\<lambda>k. ?S ! k) [0..<length (m sorted_buf)] = ?S"
      using map_nth[of ?S] by simp
    ultimately show ?thesis by simp
  qed
  have root: "mem_write_root m image_buf output_buf attribute_buf thr r =
     put_buffer m output_buf
       (write_root (m image_buf) (m output_buf) (m attribute_buf) thr r)"
    by (rule mem_write_root_refines) (use assms in auto)
  show ?thesis
    using Inr root loop
    by (cases "write_root (m image_buf) (m output_buf) (m attribute_buf) thr r")
       (simp_all add: mem_direct_filter_def direct_filter_def load_index_map)
qed

lemma mem_cut_first_filter_refines:
  assumes "output_buf \<notin> {image_buf, parent_buf, sorted_buf, attribute_buf}"
  shows "mem_cut_first_filter m image_buf output_buf parent_buf sorted_buf attribute_buf thr =
     put_buffer m output_buf
       (cut_first_filter (m image_buf) (m output_buf) (map floor (m parent_buf))
          (map floor (m sorted_buf)) (m attribute_buf) thr)"
proof (cases "getitem (map floor (m sorted_buf)) 0")
  case (Inl e)
  then show ?thesis by (simp add: mem_cut_first_filter_def cut_first_filter_def load_index_map)
next
  case (Inr r)
  let ?F = "mem_cut_first_step image_buf output_buf parent_buf sorted_buf attribute_buf thr r"
  let ?f = "cut_first_step (m image_buf) (map floor (m parent_buf)) (m attribute_buf) thr r"
  let ?S = "map floor (m sorted_buf)"
  have loop: "efold ?F [0..<length (m sorted_buf)] (m(output_buf := out)) =
       put_buffer m output_buf (efold ?f ?S out)" for out
  proof -
    have "efold ?F [0..<length (m sorted_buf)] (m(output_buf := out)) =
       put_buffer m output_buf
         (efold ?f (map (\<lambda>k. ?S ! k) [0..<length (m sorted_buf)]) out)"
      by (rule efold_refines) (simp add: mem_cut_first_step_refines[OF assms])
    moreover have "map (\<lambda>k. ?S ! k) [0..<length (m sorted_buf)] = ?S"
      using map_nth[of ?S] by simp
    ultimately show ?thesis by simp
  qed
  have root: "mem_write_root m image_buf output_buf attribute_buf thr r =
     put_buffer m output_buf
       (write_root (m image_buf) (m output_buf) (m attribute_buf) thr r)"
    by (rule mem_write_root_refines) (use assms in auto)
  show ?thesis
    using Inr root loop
    by (cases "write_root (m image_buf) (m output_buf) (m attribute_buf) thr r")
       (simp_all add: mem_cut_first_filter_def cut_first_filter_def load_index_map)
qed

lemma mem_area_step_refines:
  assumes "area_buf \<notin> {parent_buf, sorted_buf}"
    and "k < length (m sorted_buf)"
  shows "mem_area_step area_buf parent_buf sorted_buf r (m(area_buf := area)) k =
     put_buffer m area_buf
       (area_step (map floor (m parent_buf)) r area (map floor (m sorted_buf) ! k))"
proof -
  let ?m = "m(area_buf := area)"
  let ?p = "map floor (m sorted_buf) ! k"
  have bufs: "?m parent_buf = m parent_buf" "?m sorted_buf = m sorted_buf" "?m area_buf = area"
    using assms(1) by auto
  have lp: "load_index ?m sorted_buf (int k) = Inr ?p"
    using assms(2) bufs(2) by (simp add: load_index_map getitem_def)
  show ?thesis
  proof (cases "?p = r")
    case True
    then show ?thesis using lp by (simp add: mem_area_step_def area_step_def)
  next
    case False
    show ?thesis
      unfolding mem_area_step_def area_step_def lp
      using False bufs
      by (simp add: load_index_map store_own ebind_def split: sum.splits)
  qed
qed

lemma mem_compute_area_refines:
  assumes "area_buf \<notin> {parent_buf, sorted_buf}"
  shows "mem_compute_area m area_buf image_buf parent_buf sorted_buf =
     put_buffer m area_buf
       (compute_area (m image_buf) (map floor (m parent_buf)) (map floor (m sorted_buf)))"
proof (cases "getitem (map floor (m sorted_buf)) 0")
  case (Inl e)
  then show ?thesis by (simp add: mem_compute_area_def compute_area_def load_index_map)
next
  case (Inr r)
  let ?F = "mem_area_step area_buf parent_buf sorted_buf r"
  let ?f = "area_step (map floor (m parent_buf)) r"
  let ?S = "map floor (m sorted_buf)"
  let ?n = "length (m sorted_buf)"
  have "efold ?F (rev [0..<?n]) (m(area_buf := area)) =
       put_buffer m area_buf (efold ?f (map (\<lambda>k. ?S ! k) (rev [0..<?n])) area)" for area
    by (rule efold_refines) (simp add: mem_area_step_refines[OF assms])
  moreover have "map (\<lambda>k. ?S ! k) (rev [0..<?n]) = rev ?S"
    using map_nth[of ?S] by (simp add: rev_map[symmetric])
  ultimately have loop: "efold ?F (rev [0..<?n]) (m(area_buf := area)) =
       put_buffer m area_buf (efold ?f (rev ?S) area)" for area
    by simp
  show ?thesis
    using Inr loop by (simp add: mem_compute_area_def compute_area_def load_index_map)
qed

text \<open>
  C10, as the code has it. A call of \<^verbatim>\<open>_direct_filter\<close> or of
  \<^verbatim>\<open>_cut_first_filter\<close> changes no buffer but the one passed as \<open>output\<close>, and a call
  of \<^verbatim>\<open>_compute_area\<close> none but the one it allocates. So the image, the parents, the
  order and the attribute are unchanged whenever the output buffer is none of them.
\<close>

theorem calls_change_one_buffer:
  "(mem_direct_filter m image_buf output_buf parent_buf sorted_buf attribute_buf threshold
      = Inr m1 \<longrightarrow> (\<forall>b. b \<noteq> output_buf \<longrightarrow> m1 b = m b)) \<and>
   (mem_cut_first_filter m image_buf output_buf parent_buf sorted_buf attribute_buf threshold
      = Inr m2 \<longrightarrow> (\<forall>b. b \<noteq> output_buf \<longrightarrow> m2 b = m b)) \<and>
   (mem_compute_area m area_buf image_buf parent_buf sorted_buf
      = Inr m3 \<longrightarrow> (\<forall>b. b \<noteq> area_buf \<longrightarrow> m3 b = m b))"
proof (intro conjI impI allI)
  fix b assume "mem_direct_filter m image_buf output_buf parent_buf sorted_buf attribute_buf
      threshold = Inr m1" and "b \<noteq> output_buf"
  then show "m1 b = m b" by (rule mem_direct_filter_frame)
next
  fix b assume "mem_cut_first_filter m image_buf output_buf parent_buf sorted_buf attribute_buf
      threshold = Inr m2" and "b \<noteq> output_buf"
  then show "m2 b = m b" by (rule mem_cut_first_filter_frame)
next
  fix b assume "mem_compute_area m area_buf image_buf parent_buf sorted_buf = Inr m3"
    and "b \<noteq> area_buf"
  then show "m3 b = m b" by (rule mem_compute_area_frame)
qed

theorem calls_change_one_buffer_witness:
  "mem_direct_filter
     ((\<lambda>b. [])(0 := [1, 3, 3, 2], 1 := [9, 9, 9, 9], 2 := [0, 3, 1, 0], 3 := [0, 3, 1, 2],
                4 := [4, 2, 1, 3])) 0 1 2 3 4 3
     = Inr (((\<lambda>b. [])(0 := [1, 3, 3, 2], 1 := [9, 9, 9, 9], 2 := [0, 3, 1, 0],
                3 := [0, 3, 1, 2], 4 := [4, 2, 1, 3]))(1 := [1, 2, 2, 2])) \<and>
   mem_cut_first_filter
     ((\<lambda>b. [])(0 := [1, 3, 3, 2], 1 := [9, 9, 9, 9], 2 := [0, 3, 1, 0], 3 := [0, 3, 1, 2],
                4 := [4, 2, 1, 3])) 0 1 2 3 4 3
     = Inr (((\<lambda>b. [])(0 := [1, 3, 3, 2], 1 := [9, 9, 9, 9], 2 := [0, 3, 1, 0],
                3 := [0, 3, 1, 2], 4 := [4, 2, 1, 3]))(1 := [1, 2, 2, 2])) \<and>
   mem_compute_area
     ((\<lambda>b. [])(0 := [1, 3, 3, 2], 1 := [9, 9, 9, 9], 2 := [0, 3, 1, 0], 3 := [0, 3, 1, 2],
                4 := [4, 2, 1, 3])) 5 0 2 3
     = Inr (((\<lambda>b. [])(0 := [1, 3, 3, 2], 1 := [9, 9, 9, 9], 2 := [0, 3, 1, 0],
                3 := [0, 3, 1, 2], 4 := [4, 2, 1, 3]))(5 := [4, 2, 1, 3])) \<and>
   (((\<lambda>b. [])(0 := [1, 3, 3, 2], 1 := [9, 9, 9, 9], 2 := [0, 3, 1, 0],
                3 := [0, 3, 1, 2], 4 := [4, 2, 1, 3], 1 := [1, 2, 2, 2])) :: memory) 0
     = [1, 3, 3, 2] \<and>
   (((\<lambda>b. [])(0 := [1, 3, 3, 2], 1 := [9, 9, 9, 9], 2 := [0, 3, 1, 0],
                3 := [0, 3, 1, 2], 4 := [4, 2, 1, 3], 5 := [4, 2, 1, 3])) :: memory) 2
     = [0, 3, 1, 0]"
proof -
  let ?m = "((\<lambda>b. [])(0 := [1, 3, 3, 2], 1 := [9, 9, 9, 9], 2 := [0, 3, 1, 0], 3 := [0, 3, 1, 2],
                4 := [4, 2, 1, 3])) :: memory"
  have d: "direct_filter [1, 3, 3, 2 :: real] [9, 9, 9, 9] [0, 3, 1, 0] [0, 3, 1, 2] [4, 2, 1, 3] 3
      = Inr [1, 2, 2, 2]"
    by (simp add: direct_filter_def write_root_def direct_step_def getitem_def setitem_def)
  have c: "cut_first_filter [1, 3, 3, 2 :: real] [9, 9, 9, 9] [0, 3, 1, 0] [0, 3, 1, 2] [4, 2, 1, 3] 3
      = Inr [1, 2, 2, 2]"
    by (simp add: cut_first_filter_def write_root_def cut_first_step_def getitem_def setitem_def)
  have a: "compute_area [1, 3, 3, 2 :: real] [0, 3, 1, 0] [0, 3, 1, 2] = Inr [4, 2, 1, 3]"
    by (simp add: compute_area_def area_step_def getitem_def setitem_def)
  have r1: "mem_direct_filter ?m 0 1 2 3 4 3 = Inr (?m(1 := [1, 2, 2, 2]))"
    using mem_direct_filter_refines[of 1 0 2 3 4 ?m 3] d by simp
  have r2: "mem_cut_first_filter ?m 0 1 2 3 4 3 = Inr (?m(1 := [1, 2, 2, 2]))"
    using mem_cut_first_filter_refines[of 1 0 2 3 4 ?m 3] c by simp
  have r3: "mem_compute_area ?m 5 0 2 3 = Inr (?m(5 := [4, 2, 1, 3]))"
    using mem_compute_area_refines[of 5 2 3 ?m 0] a by simp
  note frame = calls_change_one_buffer[of ?m 0 1 2 3 4 3 "?m(1 := [1, 2, 2, 2])"
      "?m(1 := [1, 2, 2, 2])" 5 "?m(5 := [4, 2, 1, 3])"]
  have f1: "(?m(1 := [1, 2, 2, 2])) 0 = [1, 3, 3, 2]"
    using frame r1 by auto
  have f2: "(?m(5 := [4, 2, 1, 3])) 2 = [0, 3, 1, 0]"
    using frame r3 by auto
  show ?thesis
    by (intro conjI) (rule r1, rule r2, rule r3, rule f1, rule f2)
qed

text \<open>
  The claim as the specification states it fails when the caller passes one buffer as
  image and as output: the image is then changed.
\<close>

theorem calls_change_one_buffer_counterexample:
  "\<exists>m'. mem_direct_filter ((\<lambda>b. [])(0 := [1, 2], 1 := [0, 0], 2 := [0, 1], 3 := [2, 1]))
           0 0 1 2 3 2 = Inr m' \<and>
        ((\<lambda>b. [])(0 := [1, 2], 1 := [0, 0], 2 := [0, 1], 3 := [2, 1 :: real])) (0 :: nat)
          = [1, 2] \<and>
        m' 0 = [1, 1]"
  by (simp add: mem_direct_filter_def mem_write_root_def mem_direct_step_def load_index_def
      store_def getitem_def setitem_def)

end
